theory Spec2Isabelle
  imports Complex_Main "HOL-Library.AList"
begin

section \<open>Statistics library (utils.py)\<close>

text \<open>
  A pandas Series is a list of (timestamp, value) pairs in index order; the feed delivers
  them time-ascending without duplicate timestamps. Floating-point values are idealised
  as reals: rounding, infinities and NaN entries are outside the model, except where the
  source's control flow depends on a NaN result (the correlation, see \<open>corr\<close>).
\<close>

type_synonym series = "(int \<times> real) list"

datatype exn = Exn string

definition vals :: "series \<Rightarrow> real list" where
  "vals s = map snd s"

text \<open>\<open>Series.tail(n)\<close>: the last \<open>n\<close> rows; none for \<open>n = 0\<close>; for a negative
  \<open>n\<close> all rows but the first \<open>-n\<close>.\<close>

definition tail :: "int \<Rightarrow> 'a list \<Rightarrow> 'a list" where
  "tail n xs = (if n = 0 then [] else if 0 < n then drop (length xs - nat n) xs
                else drop (nat (- n)) xs)"

text \<open>\<open>log_prices\<close>: zeros are replaced by NaN and dropped, then the natural logarithm.
  A negative price, whose logarithm numpy gives as NaN, is kept and counted as in the
  source; its value is outside the model.\<close>

definition log_prices :: "series \<Rightarrow> series" where
  "log_prices close = map (\<lambda>(t, p). (t, ln p)) (filter (\<lambda>(t, p). p \<noteq> 0) close)"

text \<open>\<open>log_returns\<close>: first difference, the leading undefined row dropped.\<close>

definition log_returns :: "series \<Rightarrow> series" where
  "log_returns logp = map (\<lambda>((t0, v0), (t1, v1)). (t1, v1 - v0)) (zip logp (tl logp))"

definition mean :: "real list \<Rightarrow> real" where
  "mean xs = sum_list xs / real (length xs)"

text \<open>Sum of squared deviations from the mean, and of the products of deviations.\<close>

definition ssd :: "real list \<Rightarrow> real" where
  "ssd xs = (\<Sum>x\<leftarrow>xs. (x - mean xs)\<^sup>2)"

definition spd :: "real list \<Rightarrow> real list \<Rightarrow> real" where
  "spd ys xs = (\<Sum>(y, x)\<leftarrow>zip ys xs. (y - mean ys) * (x - mean xs))"

text \<open>\<open>Series.std(ddof=1)\<close>.\<close>

definition std1 :: "real list \<Rightarrow> real" where
  "std1 xs = sqrt (ssd xs / (real (length xs) - 1))"

text \<open>Binary Series operations align both operands on the index; rows present in only
  one operand become NaN and are dropped afterwards (inner join, in index order).\<close>

definition align :: "series \<Rightarrow> series \<Rightarrow> (int \<times> real \<times> real) list" where
  "align u v = concat (map (\<lambda>(t, x). case map_of v t of None \<Rightarrow> [] | Some y \<Rightarrow> [(t, x, y)]) u)"

text \<open>Pearson correlation of the aligned rows; \<open>None\<close> is NaN (no rows, or a constant
  operand: numpy divides zero by zero).\<close>

definition pearson :: "(real \<times> real) list \<Rightarrow> real option" where
  "pearson ps = (let xs = map fst ps; ys = map snd ps in
     if ssd xs = 0 \<or> ssd ys = 0 then None
     else Some (spd xs ys / (sqrt (ssd xs) * sqrt (ssd ys))))"

definition corr :: "series \<Rightarrow> series \<Rightarrow> real option" where
  "corr u v = (if length u < 30 \<or> length v < 30 then Some 0
               else pearson (map snd (align u v)))"

text \<open>\<open>ols_beta\<close> works on the bare value arrays. \<open>np.var\<close> divides by \<open>n\<close>
  (its default \<open>ddof=0\<close>), \<open>np.cov(..., ddof=1)\<close> by \<open>n - 1\<close>, and raises
  ValueError for arrays of different lengths.\<close>

definition ols_beta :: "series \<Rightarrow> series \<Rightarrow> exn + real" where
  "ols_beta y x =
     (if length y < 50 \<or> length x < 50 then Inr 1
      else let xv = vals x; yv = vals y; varx = ssd xv / real (length xv) in
        if varx = 0 then Inr 1
        else if length yv = length xv
          then Inr (spd yv xv / (real (length xv) - 1) / varx)
          else Inl (Exn ''ValueError''))"

text \<open>The standard OLS regression slope of \<open>y\<close> on \<open>x\<close>, as the specification words
  it: unbiased sample covariance over (unbiased) sample variance.\<close>

definition ols_slope :: "series \<Rightarrow> series \<Rightarrow> real" where
  "ols_slope y x = (spd (vals y) (vals x) / (real (length x) - 1))
                   / (ssd (vals x) / (real (length x) - 1))"

definition zscore :: "series \<Rightarrow> real" where
  "zscore s =
     (if length s < 50 then 0
      else let v = vals s; mu = mean v; sd = std1 v in
        if sd = 0 then 0 else (last v - mu) / sd)"

definition realized_vol :: "series \<Rightarrow> real" where
  "realized_vol lr = (if length lr < 50 then 0 else std1 (vals lr))"

section \<open>Pair scanner: top-pair selection (scanner.py)\<close>

type_synonym symbol = string

record pair_score =
  ps_a :: symbol
  ps_b :: symbol
  score :: real
  corr_lr :: real
  spread_vol :: real
  ps_beta :: real

text \<open>The loop of \<open>pick_top_pairs\<close>: a pair that reuses a claimed instrument is skipped;
  otherwise it is appended and both instruments are claimed, and only then is the length
  compared with \<open>k\<close>.\<close>

fun pick_loop :: "pair_score list \<Rightarrow> int \<Rightarrow> (symbol \<times> symbol) list \<Rightarrow> symbol set
                  \<Rightarrow> (symbol \<times> symbol) list" where
  "pick_loop [] k picked used = picked"
| "pick_loop (p # scored) k picked used =
     (if ps_a p \<in> used \<or> ps_b p \<in> used then pick_loop scored k picked used
      else let picked' = picked @ [(ps_a p, ps_b p)];
               used' = insert (ps_b p) (insert (ps_a p) used)
           in if k \<le> int (length picked') then picked'
              else pick_loop scored k picked' used')"

definition pick_top_pairs :: "pair_score list \<Rightarrow> int \<Rightarrow> (symbol \<times> symbol) list" where
  "pick_top_pairs scored k = pick_loop scored k [] {}"

text \<open>The instruments used by a list of pairs, one entry per leg.\<close>

definition legs :: "(symbol \<times> symbol) list \<Rightarrow> symbol list" where
  "legs ps = concat (map (\<lambda>(x, y). [x, y]) ps)"

text \<open>No two picked pairs share an instrument.\<close>

definition disjoint_pairs :: "(symbol \<times> symbol) list \<Rightarrow> bool" where
  "disjoint_pairs ps = (\<forall>i j. i < j \<and> j < length ps \<longrightarrow>
     {fst (ps ! i), snd (ps ! i)} \<inter> {fst (ps ! j), snd (ps ! j)} = {})"

section \<open>Risk manager (mt5_bridge.py)\<close>




datatype reason = KILL_SWITCH real | DAILY_LIMIT real | OK





section \<open>Portfolio controller (portfolio_bot.py, config.py)\<close>

record config =
  timeframe :: string
  lookback :: int
  beta_window :: int
  z_entry :: real
  z_exit :: real
  max_hold_minutes :: int
  top_pairs :: int
  max_open_positions :: int
  min_corr :: real
  max_vol_ratio :: real
  poll_seconds :: int

definition default_config :: config where
  "default_config = \<lparr>timeframe = ''1m'', lookback = 720, beta_window = 720,
     z_entry = 23 / 10, z_exit = 1 / 2, max_hold_minutes = 240, top_pairs = 5,
     max_open_positions = 2, min_corr = 55 / 100, max_vol_ratio = 2, poll_seconds = 20\<rparr>"

record position =
  pos_a :: symbol
  pos_b :: symbol
  side_a :: string
  side_b :: string
  vol_a :: real
  vol_b :: real
  entry_pa :: real
  entry_pb :: real
  entry_ts :: real
  ticket_a :: int
  ticket_b :: int

subsection \<open>The collaborators\<close>

text \<open>
  The controller receives its data feed, broker gateway and risk manager as constructor
  arguments and only calls their methods. The model takes these methods as a record of
  operations on an abstract outside world \<open>'w\<close>: each call may raise (\<open>Inl\<close>), returns
  a value and moves the world on. \<open>clock\<close> is \<open>time.time()\<close>, \<open>sleep\<close> is
  \<open>time.sleep\<close>. A reply of \<open>open_position\<close> carries the \<open>ok\<close> flag and the order
  ticket; a reply of \<open>close_position_by_ticket\<close> the \<open>ok\<close> flag and the realized
  profit when the reply has one. A gateway object without the called method (the
  connector of mt5_bridge.py defines \<open>place_market_order\<close>, not \<open>open_position\<close>) is
  the operation that always raises.
\<close>

datatype open_res = OpenRes (ok: bool) (res_order: int)

datatype close_res = CloseRes (c_ok: bool) (c_profit: "real option")

record 'w ops =
  clock :: "'w \<Rightarrow> real"
  sleep :: "real \<Rightarrow> 'w \<Rightarrow> 'w"
  fetch_close :: "symbol \<Rightarrow> string \<Rightarrow> int \<Rightarrow> 'w \<Rightarrow> (exn + series) \<times> 'w"
  fetch_last :: "symbol \<Rightarrow> 'w \<Rightarrow> (exn + real) \<times> 'w"
  rm_is_trading_allowed :: "'w \<Rightarrow> (exn + bool \<times> reason) \<times> 'w"
  calc_volume_for_risk :: "symbol \<Rightarrow> real \<Rightarrow> real \<Rightarrow> 'w \<Rightarrow> (exn + real) \<times> 'w"
  open_position :: "symbol \<Rightarrow> string \<Rightarrow> real \<Rightarrow> 'w \<Rightarrow> (exn + open_res) \<times> 'w"
  close_position_by_ticket :: "int \<Rightarrow> 'w \<Rightarrow> (exn + close_res) \<times> 'w"

text \<open>Every call the controller makes to a collaborator is logged, oldest first; a
  broker call is logged with what it returned or raised. The log is not part of the
  program; it is what the theorems about "no entry", "no exit" and "leg A is closed"
  speak about.\<close>

datatype call =
    FetchClose symbol
  | FetchLast symbol
  | RiskCheck
  | CalcVolume symbol real real
  | OpenPosition symbol string real "exn + open_res"
  | ClosePosition int "exn + close_res"
  | Sleep real

text \<open>The fields of the controller object, the outside world and the call log. The
  position table is a Python dict: an association list in insertion order.\<close>

record 'w bot =
  positions :: "((symbol \<times> symbol) \<times> position) list"
  cooldown_until_ts :: real
  halted :: bool
  consecutive_errors :: nat
  world :: 'w
  calls :: "call list"

definition call_ext :: "('w \<Rightarrow> 'r \<times> 'w) \<Rightarrow> ('r \<Rightarrow> call) \<Rightarrow> 'w bot \<Rightarrow> 'r \<times> 'w bot" where
  "call_ext f c s = (case f (world s) of (r, w') \<Rightarrow> (r, s\<lparr>world := w', calls := calls s @ [c r]\<rparr>))"

definition do_sleep :: "'w ops \<Rightarrow> real \<Rightarrow> 'w bot \<Rightarrow> 'w bot" where
  "do_sleep ops d s = s\<lparr>world := sleep ops d (world s), calls := calls s @ [Sleep d]\<rparr>"

definition is_open_call :: "call \<Rightarrow> bool" where
  "is_open_call c = (case c of OpenPosition x sd v r \<Rightarrow> True | _ \<Rightarrow> False)"

definition is_close_call :: "call \<Rightarrow> bool" where
  "is_close_call c = (case c of ClosePosition t r \<Rightarrow> True | _ \<Rightarrow> False)"

subsection \<open>\<open>_can_trade\<close>\<close>

definition can_trade :: "'w ops \<Rightarrow> bool \<Rightarrow> 'w bot \<Rightarrow> (exn + bool) \<times> 'w bot" where
  "can_trade ops checking_entry s =
     (if halted s then (Inr False, s)
      else if checking_entry \<and> clock ops (world s) < cooldown_until_ts s then (Inr False, s)
      else case call_ext (rm_is_trading_allowed ops) (\<lambda>r. RiskCheck) s of
             (Inl e, s1) \<Rightarrow> (Inl e, s1)
           | (Inr (allowed, why), s1) \<Rightarrow>
               if allowed then (Inr True, s1) else (Inr False, s1\<lparr>halted := True\<rparr>))"

subsection \<open>\<open>_regime_ok\<close> and \<open>_compute_signal\<close>\<close>

text \<open>A comparison with NaN is false.\<close>

definition nan_less :: "real option \<Rightarrow> real \<Rightarrow> bool" where
  "nan_less c m = (case c of None \<Rightarrow> False | Some v \<Rightarrow> v < m)"

definition regime_ok :: "config \<Rightarrow> series \<Rightarrow> series \<Rightarrow> bool" where
  "regime_ok cfg la lb =
     (let ra = tail 400 (log_returns la); rb = tail 400 (log_returns lb) in
      if nan_less (corr ra rb) (min_corr cfg) then False
      else let vola = realized_vol ra; volb = realized_vol rb;
               base = (if vola \<noteq> 0 \<and> volb \<noteq> 0 then (vola + volb) / 2 else max vola volb)
           in if base = 0 then True
              else max vola volb / max (1 / 10 ^ 9) (if 0 < min vola volb then min vola volb else base)
                   \<le> max_vol_ratio cfg)"

text \<open>\<open>(la - beta * lb).dropna()\<close>.\<close>

definition spread_of :: "series \<Rightarrow> series \<Rightarrow> real \<Rightarrow> series" where
  "spread_of la lb beta = map (\<lambda>(t, x, y). (t, x - beta * y)) (align la lb)"

type_synonym signal = "string \<times> real \<times> real \<times> string"

text \<open>The part of \<open>_compute_signal\<close> after the two fetches (lines 70 to 96): \<open>pos\<close> is
  the table's entry for the pair, \<open>now\<close> the clock. The reason strings are diagnostic;
  the held minutes are not formatted into them.\<close>

definition signal_from :: "config \<Rightarrow> series \<Rightarrow> series \<Rightarrow> position option \<Rightarrow> real \<Rightarrow> exn + signal" where
  "signal_from cfg ca cb pos now =
     (let la = tail (lookback cfg) (log_prices ca); lb = tail (lookback cfg) (log_prices cb) in
      if length la < 120 \<or> length lb < 120 then Inr (''SKIP'', 0, 1, ''not enough data'')
      else if pos = None \<and> \<not> regime_ok cfg la lb then Inr (''SKIP'', 0, 1, ''regime filter'')
      else case ols_beta (tail (beta_window cfg) la) (tail (beta_window cfg) lb) of
             Inl e \<Rightarrow> Inl e
           | Inr beta \<Rightarrow>
               let z = zscore (tail 400 (spread_of la lb beta)) in
               (case pos of
                  None \<Rightarrow>
                    if z_entry cfg < z then Inr (''ENTER_LONGB_SHORTA'', z, beta, ''z high'')
                    else if z < - z_entry cfg then Inr (''ENTER_LONGA_SHORTB'', z, beta, ''z low'')
                    else Inr (''HOLD'', z, beta, ''no entry'')
                | Some p \<Rightarrow>
                    let held_min = (now - entry_ts p) / 60 in
                    if real_of_int (max_hold_minutes cfg) < held_min then Inr (''EXIT'', z, beta, ''max hold'')
                    else if \<bar>z\<bar> < z_exit cfg then Inr (''EXIT'', z, beta, ''mean reversion'')
                    else Inr (''HOLD'', z, beta, ''in position'')))"

definition compute_signal :: "'w ops \<Rightarrow> config \<Rightarrow> symbol \<Rightarrow> symbol \<Rightarrow> 'w bot \<Rightarrow> (exn + signal) \<times> 'w bot" where
  "compute_signal ops cfg a b s =
     (case call_ext (fetch_close ops a (timeframe cfg) (lookback cfg)) (\<lambda>r. FetchClose a) s of
        (Inl e, s1) \<Rightarrow> (Inl e, s1)
      | (Inr ca, s1) \<Rightarrow>
          (case call_ext (fetch_close ops b (timeframe cfg) (lookback cfg)) (\<lambda>r. FetchClose b) s1 of
             (Inl e, s2) \<Rightarrow> (Inl e, s2)
           | (Inr cb, s2) \<Rightarrow>
               (signal_from cfg ca cb (map_of (positions s2) (a, b)) (clock ops (world s2)), s2)))"

subsection \<open>\<open>_live_enter\<close>\<close>

text \<open>Lines 104 and 105: the sides of the two legs.\<close>

definition leg_sides :: "string \<Rightarrow> string \<times> string" where
  "leg_sides action =
     (if action = ''ENTER_A_LONG'' then ''BUY'' else ''SELL'',
      if action = ''ENTER_A_LONG'' then ''SELL'' else ''BUY'')"

text \<open>The retry loop (lines 113 to 129), with the number of attempts left and the two
  ticket variables. A successful leg B leaves the loop; a failed leg B closes leg A by
  its ticket and clears \<open>ticket_a\<close>; every attempt that does not leave the loop sleeps
  one second.\<close>

fun enter_attempts ::
  "'w ops \<Rightarrow> nat \<Rightarrow> symbol \<Rightarrow> symbol \<Rightarrow> string \<Rightarrow> string \<Rightarrow> real \<Rightarrow> real \<Rightarrow> int \<Rightarrow> int \<Rightarrow> 'w bot
   \<Rightarrow> (exn + int \<times> int) \<times> 'w bot" where
  "enter_attempts ops 0 a b sa sb va vb ta tb s = (Inr (ta, tb), s)"
| "enter_attempts ops (Suc n) a b sa sb va vb ta tb s =
     (case call_ext (open_position ops a sa va) (OpenPosition a sa va) s of
        (Inl e, s1) \<Rightarrow> (Inl e, s1)
      | (Inr res_a, s1) \<Rightarrow>
          if ok res_a then
            (case call_ext (open_position ops b sb vb) (OpenPosition b sb vb) s1 of
               (Inl e, s2) \<Rightarrow> (Inl e, s2)
             | (Inr res_b, s2) \<Rightarrow>
                 if ok res_b then (Inr (res_order res_a, res_order res_b), s2)
                 else (case call_ext (close_position_by_ticket ops (res_order res_a))
                              (ClosePosition (res_order res_a)) s2 of
                         (Inl e, s3) \<Rightarrow> (Inl e, s3)
                       | (Inr res_c, s3) \<Rightarrow>
                           enter_attempts ops n a b sa sb va vb 0 tb (do_sleep ops 1 s3)))
          else enter_attempts ops n a b sa sb va vb ta tb (do_sleep ops 1 s1))"

text \<open>The record built at lines 132 to 136.\<close>

definition new_position ::
  "symbol \<Rightarrow> symbol \<Rightarrow> string \<Rightarrow> real \<Rightarrow> real \<Rightarrow> real \<Rightarrow> real \<Rightarrow> real \<Rightarrow> int \<Rightarrow> int \<Rightarrow> position" where
  "new_position a b action va vb pa pb ts ta tb =
     \<lparr>pos_a = a, pos_b = b, side_a = fst (leg_sides action), side_b = snd (leg_sides action),
      vol_a = va, vol_b = vb, entry_pa = pa, entry_pb = pb, entry_ts = ts,
      ticket_a = ta, ticket_b = tb\<rparr>"

definition live_enter ::
  "'w ops \<Rightarrow> symbol \<Rightarrow> symbol \<Rightarrow> string \<Rightarrow> real \<Rightarrow> real \<Rightarrow> 'w bot \<Rightarrow> (exn + unit) \<times> 'w bot" where
  "live_enter ops a b action pa pb s =
     (case call_ext (calc_volume_for_risk ops a pa (pa * (95 / 100))) (\<lambda>r. CalcVolume a pa (pa * (95 / 100))) s of
        (Inl e, s1) \<Rightarrow> (Inl e, s1)
      | (Inr va, s1) \<Rightarrow>
     (case call_ext (calc_volume_for_risk ops b pb (pb * (95 / 100))) (\<lambda>r. CalcVolume b pb (pb * (95 / 100))) s1 of
        (Inl e, s2) \<Rightarrow> (Inl e, s2)
      | (Inr vb, s2) \<Rightarrow>
     (case enter_attempts ops 3 a b (fst (leg_sides action)) (snd (leg_sides action)) va vb 0 0 s2 of
        (Inl e, s3) \<Rightarrow> (Inl e, s3)
      | (Inr (ta, tb), s3) \<Rightarrow>
          if ta \<noteq> 0 \<and> tb \<noteq> 0 then
            (Inr (), s3\<lparr>positions := AList.update (a, b)
               (new_position a b action va vb pa pb (clock ops (world s3)) ta tb) (positions s3)\<rparr>)
          else (Inr (), s3))))"

subsection \<open>\<open>_live_exit\<close>\<close>

text \<open>The realized profit read from a close reply: zero for a failed close and for a
  reply without a profit.\<close>

definition pnl_of :: "close_res \<Rightarrow> real" where
  "pnl_of r = (if c_ok r then (case c_profit r of None \<Rightarrow> 0 | Some p \<Rightarrow> p) else 0)"

definition live_exit :: "'w ops \<Rightarrow> symbol \<times> symbol \<Rightarrow> 'w bot \<Rightarrow> (exn + unit) \<times> 'w bot" where
  "live_exit ops key s =
     (case map_of (positions s) key of
        None \<Rightarrow> (Inl (Exn ''KeyError''), s)
      | Some pos \<Rightarrow>
     (case call_ext (close_position_by_ticket ops (ticket_a pos)) (ClosePosition (ticket_a pos)) s of
        (Inl e, s1) \<Rightarrow> (Inl e, s1)
      | (Inr res_a, s1) \<Rightarrow>
     (case call_ext (close_position_by_ticket ops (ticket_b pos)) (ClosePosition (ticket_b pos)) s1 of
        (Inl e, s2) \<Rightarrow> (Inl e, s2)
      | (Inr res_b, s2) \<Rightarrow>
          let total_pnl = pnl_of res_a + pnl_of res_b;
              s3 = (if total_pnl < 0
                    then s2\<lparr>cooldown_until_ts := clock ops (world s2) + 30 * 60\<rparr> else s2)
          in (Inr (), s3\<lparr>positions := AList.delete key (positions s3)\<rparr>))))"

subsection \<open>\<open>step\<close>\<close>

definition is_enter :: "string \<Rightarrow> bool" where
  "is_enter action = (take 5 action = ''ENTER'')"

text \<open>Lines 182 to 194: what the controller does with a computed action.\<close>

definition act_on :: "'w ops \<Rightarrow> symbol \<Rightarrow> symbol \<Rightarrow> string \<Rightarrow> real \<Rightarrow> real \<Rightarrow> 'w bot \<Rightarrow> (exn + unit) \<times> 'w bot" where
  "act_on ops a b action pa pb s =
     (if action = ''EXIT'' \<and> map_of (positions s) (a, b) \<noteq> None then live_exit ops (a, b) s
      else if is_enter action \<and> map_of (positions s) (a, b) = None then
        (case can_trade ops True s of
           (Inl e, s1) \<Rightarrow> (Inl e, s1)
         | (Inr allowed, s1) \<Rightarrow>
             if allowed then live_enter ops a b action pa pb s1 else (Inr (), s1))
      else (Inr (), s))"

text \<open>The body of the \<open>try\<close> block for one pair.\<close>

definition pair_body :: "'w ops \<Rightarrow> config \<Rightarrow> symbol \<times> symbol \<Rightarrow> 'w bot \<Rightarrow> (exn + unit) \<times> 'w bot" where
  "pair_body ops cfg key s =
     (case compute_signal ops cfg (fst key) (snd key) s of
        (Inl e, s1) \<Rightarrow> (Inl e, s1)
      | (Inr (action, z, beta, why), s1) \<Rightarrow>
     (case call_ext (fetch_last ops (fst key)) (\<lambda>r. FetchLast (fst key)) s1 of
        (Inl e, s2) \<Rightarrow> (Inl e, s2)
      | (Inr pa, s2) \<Rightarrow>
     (case call_ext (fetch_last ops (snd key)) (\<lambda>r. FetchLast (snd key)) s2 of
        (Inl e, s3) \<Rightarrow> (Inl e, s3)
      | (Inr pb, s3) \<Rightarrow> act_on ops (fst key) (snd key) action pa pb s3)))"

text \<open>One iteration of the loop: the body, then either the reset of the error counter
  or the handler (count, halt at eight, sleep twenty seconds).\<close>

definition pair_iter :: "'w ops \<Rightarrow> config \<Rightarrow> symbol \<times> symbol \<Rightarrow> 'w bot \<Rightarrow> 'w bot" where
  "pair_iter ops cfg key s =
     (case pair_body ops cfg key s of
        (Inr u, s1) \<Rightarrow> s1\<lparr>consecutive_errors := 0\<rparr>
      | (Inl e, s1) \<Rightarrow>
          let n = consecutive_errors s1 + 1;
              s2 = s1\<lparr>consecutive_errors := n\<rparr>;
              s3 = (if 8 \<le> n then s2\<lparr>halted := True\<rparr> else s2)
          in do_sleep ops 20 s3)"

fun for_pairs :: "'w ops \<Rightarrow> config \<Rightarrow> (symbol \<times> symbol) list \<Rightarrow> 'w bot \<Rightarrow> 'w bot" where
  "for_pairs ops cfg [] s = s"
| "for_pairs ops cfg (key # keys) s = for_pairs ops cfg keys (pair_iter ops cfg key s)"

definition step :: "'w ops \<Rightarrow> config \<Rightarrow> (symbol \<times> symbol) list \<Rightarrow> 'w bot \<Rightarrow> (exn + unit) \<times> 'w bot" where
  "step ops cfg pairs s =
     (case can_trade ops False s of
        (Inl e, s1) \<Rightarrow> (Inl e, s1)
      | (Inr allowed, s1) \<Rightarrow>
          if allowed then
            (Inr (), for_pairs ops cfg
               (if max_open_positions cfg \<le> int (length (positions s1))
                then map fst (positions s1) else pairs) s1)
          else (Inr (), s1))"

text \<open>The polling loop of \<open>main\<close>, cut after \<open>n\<close> cycles: an exception that leaves
  \<open>step\<close> ends the process.\<close>

fun cycles :: "'w ops \<Rightarrow> config \<Rightarrow> (symbol \<times> symbol) list \<Rightarrow> nat \<Rightarrow> 'w bot \<Rightarrow> (exn + unit) \<times> 'w bot" where
  "cycles ops cfg pairs 0 s = (Inr (), s)"
| "cycles ops cfg pairs (Suc n) s =
     (case step ops cfg pairs s of
        (Inl e, s1) \<Rightarrow> (Inl e, s1)
      | (Inr u, s1) \<Rightarrow> cycles ops cfg pairs n (do_sleep ops (real_of_int (poll_seconds cfg)) s1))"

definition init_bot :: "'w \<Rightarrow> 'w bot" where
  "init_bot w = \<lparr>positions = [], cooldown_until_ts = 0, halted = False,
                 consecutive_errors = 0, world = w, calls = []\<rparr>"

section \<open>Notions used in the statements\<close>

text \<open>Two states agree on the controller's own fields.\<close>

definition same_ctl :: "'w bot \<Rightarrow> 'w bot \<Rightarrow> bool" where
  "same_ctl s s' = (positions s' = positions s \<and> cooldown_until_ts s' = cooldown_until_ts s
       \<and> halted s' = halted s \<and> consecutive_errors s' = consecutive_errors s)"

text \<open>The calls logged between two states.\<close>

definition new_calls :: "'w bot \<Rightarrow> 'w bot \<Rightarrow> call list" where
  "new_calls s s' = drop (length (calls s)) (calls s')"

text \<open>An open call for the given instrument and side.\<close>

definition is_open_of :: "symbol \<Rightarrow> string \<Rightarrow> call \<Rightarrow> bool" where
  "is_open_of x sd c = (case c of OpenPosition y sd' v r \<Rightarrow> y = x \<and> sd' = sd | _ \<Rightarrow> False)"

text \<open>No record of the table carries a zero ticket.\<close>

definition no_zero_ticket :: "((symbol \<times> symbol) \<times> position) list \<Rightarrow> bool" where
  "no_zero_ticket tbl = (\<forall>kp\<in>set tbl. ticket_a (snd kp) \<noteq> 0 \<and> ticket_b (snd kp) \<noteq> 0)"

text \<open>
  The two-leg entry protocol as the specification words it, as a relation between the
  attempts left, the ticket variables, the broker calls made and the outcome: open leg A;
  on success open leg B; if leg B is refused, close leg A by its ticket, pause and retry
  the pair; stop at the first attempt in which both legs open, when a call raises, or
  when no attempt is left. \<open>oa\<close> and \<open>ob\<close> are the open calls of the two legs, still
  waiting for the broker's reply.
\<close>

inductive protocol ::
  "(exn + open_res \<Rightarrow> call) \<Rightarrow> (exn + open_res \<Rightarrow> call) \<Rightarrow> nat \<Rightarrow> int \<Rightarrow> int \<Rightarrow> call list
   \<Rightarrow> exn + int \<times> int \<Rightarrow> bool"
  for oa ob where
  exhausted: "protocol oa ob 0 ta tb [] (Inr (ta, tb))"
| a_raised: "protocol oa ob (Suc n) ta tb [oa (Inl e)] (Inl e)"
| a_refused: "\<not> ok ra \<Longrightarrow> protocol oa ob n ta tb cs r
     \<Longrightarrow> protocol oa ob (Suc n) ta tb (oa (Inr ra) # Sleep 1 # cs) r"
| b_raised: "ok ra \<Longrightarrow> protocol oa ob (Suc n) ta tb [oa (Inr ra), ob (Inl e)] (Inl e)"
| both_open: "ok ra \<Longrightarrow> ok rb
     \<Longrightarrow> protocol oa ob (Suc n) ta tb [oa (Inr ra), ob (Inr rb)]
           (Inr (res_order ra, res_order rb))"
| close_raised: "ok ra \<Longrightarrow> \<not> ok rb
     \<Longrightarrow> protocol oa ob (Suc n) ta tb
           [oa (Inr ra), ob (Inr rb), ClosePosition (res_order ra) (Inl e)] (Inl e)"
| rolled_back: "ok ra \<Longrightarrow> \<not> ok rb \<Longrightarrow> protocol oa ob n 0 tb cs r
     \<Longrightarrow> protocol oa ob (Suc n) ta tb
           (oa (Inr ra) # ob (Inr rb) # ClosePosition (res_order ra) (Inr rc) # Sleep 1 # cs) r"


text \<open>The feed has too little history for an instrument: whenever it is asked, it raises
  or returns a series whose cleaned log-prices number fewer than 120.\<close>

definition starved :: "'w ops \<Rightarrow> config \<Rightarrow> symbol \<Rightarrow> bool" where
  "starved ops cfg x =
     (\<forall>w. case fst (fetch_close ops x (timeframe cfg) (lookback cfg) w) of
             Inl e \<Rightarrow> True
           | Inr c \<Rightarrow> length (tail (lookback cfg) (log_prices c)) < 120)"

text \<open>The iteration for one pair up to the point where the action is acted on (lines
  175 to 182): the signal and the two last prices, or the exception raised on the way.
  \<open>pair_body\<close> is this followed by \<open>act_on\<close> (lemma \<open>pair_body_before_act\<close>).\<close>

definition before_act ::
  "'w ops \<Rightarrow> config \<Rightarrow> symbol \<times> symbol \<Rightarrow> 'w bot \<Rightarrow> (exn + string \<times> real \<times> real) \<times> 'w bot" where
  "before_act ops cfg key s =
     (case compute_signal ops cfg (fst key) (snd key) s of
        (Inl e, s1) \<Rightarrow> (Inl e, s1)
      | (Inr (action, z, beta, why), s1) \<Rightarrow>
     (case call_ext (fetch_last ops (fst key)) (\<lambda>r. FetchLast (fst key)) s1 of
        (Inl e, s2) \<Rightarrow> (Inl e, s2)
      | (Inr pa, s2) \<Rightarrow>
     (case call_ext (fetch_last ops (snd key)) (\<lambda>r. FetchLast (snd key)) s2 of
        (Inl e, s3) \<Rightarrow> (Inl e, s3)
      | (Inr pb, s3) \<Rightarrow> (Inr (action, pa, pb), s3))))"

text \<open>The entry check of an iteration falls inside the cooldown: if the iteration
  comes to an ENTER action for a pair without a position while not halted, which is when
  \<open>_can_trade\<close> reads the clock, the clock it reads is before the end of the cooldown
  then in force.\<close>

definition entry_check_inside :: "'w ops \<Rightarrow> config \<Rightarrow> symbol \<times> symbol \<Rightarrow> 'w bot \<Rightarrow> bool" where
  "entry_check_inside ops cfg key s =
     (case before_act ops cfg key s of
        (Inl e, s3) \<Rightarrow> True
      | (Inr (action, pa, pb), s3) \<Rightarrow>
          if is_enter action \<and> map_of (positions s3) key = None \<and> \<not> halted s3
          then clock ops (world s3) < cooldown_until_ts s3 else True)"

text \<open>The same for every iteration of the loop, each in the state its predecessors leave
  behind.\<close>

fun entry_checks_inside :: "'w ops \<Rightarrow> config \<Rightarrow> (symbol \<times> symbol) list \<Rightarrow> 'w bot \<Rightarrow> bool" where
  "entry_checks_inside ops cfg [] s = True"
| "entry_checks_inside ops cfg (key # keys) s =
     (entry_check_inside ops cfg key s \<and> entry_checks_inside ops cfg keys (pair_iter ops cfg key s))"

text \<open>A cycle falls inside the cooldown: every entry check its loop performs does.\<close>

definition cycle_in_cooldown :: "'w ops \<Rightarrow> config \<Rightarrow> (symbol \<times> symbol) list \<Rightarrow> 'w bot \<Rightarrow> bool" where
  "cycle_in_cooldown ops cfg pairs s =
     (case can_trade ops False s of
        (Inl e, s1) \<Rightarrow> True
      | (Inr allowed, s1) \<Rightarrow>
          if allowed then
            entry_checks_inside ops cfg
              (if max_open_positions cfg \<le> int (length (positions s1))
               then map fst (positions s1) else pairs) s1
          else True)"

section \<open>A scripted world for concrete runs\<close>

text \<open>
  A small deterministic collaborator set: the clock is a field that \<open>sleep\<close> advances,
  the feed returns a fixed series (or raises a fixed exception) per symbol, the last
  price is 100, every leg is sized
  at one lot, the risk manager answers from a flag, and the broker answers each open and
  each close from a script (a refusal once the script is used up).
\<close>

record sim =
  sim_time :: real
  sim_opens :: "open_res list"
  sim_closes :: "close_res list"
  sim_allowed :: bool

definition sim_ops :: "(symbol \<Rightarrow> exn + series) \<Rightarrow> sim ops" where
  "sim_ops feed =
     \<lparr>clock = sim_time,
      sleep = (\<lambda>d w. w\<lparr>sim_time := sim_time w + d\<rparr>),
      fetch_close = (\<lambda>sym tf n w. (feed sym, w)),
      fetch_last = (\<lambda>sym w. (Inr 100, w)),
      rm_is_trading_allowed =
        (\<lambda>w. (Inr (if sim_allowed w then (True, OK) else (False, DAILY_LIMIT 0)), w)),
      calc_volume_for_risk = (\<lambda>sym entry sl w. (Inr 1, w)),
      open_position = (\<lambda>sym sd v w. case sim_opens w of
                         [] \<Rightarrow> (Inr (OpenRes False 0), w)
                       | r # rs \<Rightarrow> (Inr r, w\<lparr>sim_opens := rs\<rparr>)),
      close_position_by_ticket = (\<lambda>t w. case sim_closes w of
                         [] \<Rightarrow> (Inr (CloseRes False None), w)
                       | r # rs \<Rightarrow> (Inr r, w\<lparr>sim_closes := rs\<rparr>))\<rparr>"

text \<open>The controller as constructed, on a scripted world at time 0.\<close>

definition sim_start :: "open_res list \<Rightarrow> close_res list \<Rightarrow> sim bot" where
  "sim_start opens closes =
     init_bot \<lparr>sim_time = 0, sim_opens = opens, sim_closes = closes, sim_allowed = True\<rparr>"

text \<open>A price history of 121 bars: 120 bars at price 1, then one bar at price e. Its
  log-prices are 120 zeros followed by a one.\<close>

definition spike_close :: series where
  "spike_close = map (\<lambda>i. (int i, 1)) [0..<120] @ [(120, exp 1)]"

text \<open>The log-prices of the spike history.\<close>

definition spike_log :: series where
  "spike_log = map (\<lambda>i. (int i, 0)) [0..<120] @ [(120, 1)]"

text \<open>A ramp of fifty points, 0 to 49.\<close>

definition ramp50 :: series where
  "ramp50 = map (\<lambda>i. (int i, real i)) [0..<50]"

section \<open>Theorems: statistics library\<close>

lemma tail_length: "length (tail n xs) \<le> length xs"
  by (simp add: tail_def)

lemma spd_self: "spd xs xs = ssd xs"
  by (simp add: spd_def ssd_def zip_same_conv_map power2_eq_square o_def)

lemma ssd_nonneg: "0 \<le> ssd xs"
  unfolding ssd_def by (rule sum_list_nonneg) auto

lemma ssd_zero_all:
  assumes "ssd xs = 0" and "x \<in> set xs"
  shows "x = mean xs"
proof -
  have "\<forall>v\<in>set (map (\<lambda>x. (x - mean xs)\<^sup>2) xs). v = 0"
    using assms(1) unfolding ssd_def by (subst (asm) sum_list_nonneg_eq_0_iff) auto
  with assms(2) have "(x - mean xs)\<^sup>2 = 0" by auto
  then show ?thesis by simp
qed

lemma ssd_two_values: "x \<in> set xs \<Longrightarrow> y \<in> set xs \<Longrightarrow> x \<noteq> y \<Longrightarrow> ssd xs \<noteq> 0"
  using ssd_zero_all by blast

text \<open>The neutral default of \<open>ols_beta\<close>: short input or a constant regressor.\<close>

lemma ols_beta_default:
  "length y < 50 \<or> length x < 50 \<or> ssd (vals x) = 0 \<Longrightarrow> ols_beta y x = Inr 1"
  by (auto simp: ols_beta_def Let_def)

text \<open>On every other input of equal lengths the result is the OLS slope scaled by
  \<open>n / (n - 1)\<close>: the covariance is divided by \<open>n - 1\<close>, the variance by \<open>n\<close>.\<close>

lemma ols_beta_factor:
  assumes "50 \<le> length y" and "length y = length x" and "ssd (vals x) \<noteq> 0"
  shows "ols_beta y x = Inr (real (length x) / (real (length x) - 1) * ols_slope y x)"
  using assms by (auto simp add: ols_beta_def ols_slope_def Let_def vals_def)

lemma ols_slope_self:
  assumes "2 \<le> length x" and "ssd (vals x) \<noteq> 0"
  shows "ols_slope x x = 1"
  using assms by (simp add: ols_slope_def spd_self)

lemma ramp50_ssd: "ssd (vals ramp50) \<noteq> 0"
proof (rule ssd_two_values)
  show "(0::real) \<in> set (vals ramp50)"
    by (simp add: vals_def ramp50_def image_iff o_def)
  show "(1::real) \<in> set (vals ramp50)"
    by (auto simp add: vals_def ramp50_def image_iff o_def intro: bexI [of _ 1])
  show "(0::real) \<noteq> 1" by simp
qed

text \<open>
  Claim C3. \<open>ols_beta\<close> is claimed to return the standard OLS slope of \<open>y\<close> on \<open>x\<close>
  whenever both series have at least 50 points and \<open>x\<close> is not constant. Regressing the
  fifty-point ramp 0, 1, ..., 49 on itself, the OLS slope is 1, and \<open>ols_beta\<close> returns
  50/49.
\<close>

theorem ols_beta_ramp_is_not_slope:
  "ols_beta ramp50 ramp50 = Inr (50 / 49) \<and> ols_slope ramp50 ramp50 = 1"
proof -
  have l: "length ramp50 = 50" by (simp add: ramp50_def)
  have "ols_beta ramp50 ramp50
        = Inr (real (length ramp50) / (real (length ramp50) - 1) * ols_slope ramp50 ramp50)"
    by (rule ols_beta_factor) (simp_all add: l ramp50_ssd)
  moreover have "ols_slope ramp50 ramp50 = 1"
    by (rule ols_slope_self) (simp_all add: l ramp50_ssd)
  ultimately show ?thesis by (simp add: l)
qed

subsection \<open>A series against itself\<close>

lemma mean_spike: "mean (replicate n 0 @ [c]) = c / (real n + 1)"
  by (simp add: mean_def sum_list_replicate add.commute)

lemma ssd_spike: "ssd (replicate n 0 @ [c]) = c\<^sup>2 * real n / (real n + 1)"
proof -
  define d where "d = real n + 1"
  have d: "d \<noteq> 0" "real n = d - 1" by (simp_all add: d_def)
  have e1: "ssd (replicate n 0 @ [c]) = (d - 1) * (c / d)\<^sup>2 + (c - c / d)\<^sup>2"
    by (simp add: ssd_def mean_spike sum_list_replicate map_replicate_const o_def d_def)
  have e2: "c - c / d = c * (d - 1) / d"
    using d(1) by (simp add: field_simps)
  have "(d - 1) * (c / d)\<^sup>2 + (c * (d - 1) / d)\<^sup>2 = (c\<^sup>2 * (d - 1) * d) / d\<^sup>2"
    by (simp add: power_divide power2_eq_square add_divide_distrib [symmetric] algebra_simps)
  also have "\<dots> = c\<^sup>2 * (d - 1) / d"
    using d(1) by (simp add: power2_eq_square)
  finally have e3: "(d - 1) * (c / d)\<^sup>2 + (c * (d - 1) / d)\<^sup>2 = c\<^sup>2 * (d - 1) / d" .
  show ?thesis unfolding e1 e2 e3 by (simp add: d_def)
qed

lemma align_same:
  assumes "distinct (map fst s)"
  shows "align s s = map (\<lambda>(t, x). (t, x, x)) s"
proof -
  have "(case p of (t, x) \<Rightarrow> case map_of s t of None \<Rightarrow> [] | Some y \<Rightarrow> [(t, x, y)])
        = [(fst p, snd p, snd p)]" if "p \<in> set s" for p
  proof -
    from that assms have "map_of s (fst p) = Some (snd p)" by simp
    then show ?thesis by (simp add: case_prod_beta)
  qed
  then have m: "map (\<lambda>(t, x). case map_of s t of None \<Rightarrow> [] | Some y \<Rightarrow> [(t, x, y)]) s
           = map (\<lambda>p. [(fst p, snd p, snd p)]) s"
    by (intro map_cong) auto
  have "align s s = map (\<lambda>p. (fst p, snd p, snd p)) s"
    unfolding align_def m by (rule concat_map_singleton)
  then show ?thesis by (simp add: case_prod_beta)
qed

lemma spread_same:
  assumes "distinct (map fst s)"
  shows "spread_of s s beta = map (\<lambda>(t, x). (t, x - beta * x)) s"
  by (simp add: spread_of_def align_same [OF assms] case_prod_beta o_def)

lemma fst_log_returns: "map fst (log_returns s) = tl (map fst s)"
proof -
  have "map fst (log_returns s) = map fst (map snd (zip s (tl s)))"
    by (simp add: log_returns_def case_prod_beta o_def)
  also have "map snd (zip s (tl s)) = tl s"
    by (simp add: map_snd_zip_take)
  finally show ?thesis by (simp add: map_tl)
qed

lemma distinct_tail: "distinct (map fst s) \<Longrightarrow> distinct (map fst (tail n s))"
  by (simp add: tail_def distinct_drop drop_map [symmetric])

lemma distinct_returns: "distinct (map fst s) \<Longrightarrow> distinct (map fst (tail n (log_returns s)))"
  by (rule distinct_tail) (simp add: fst_log_returns distinct_tl)

lemma std1_nonneg: "2 \<le> length xs \<Longrightarrow> 0 \<le> std1 xs"
  by (simp add: std1_def ssd_nonneg)

lemma realized_vol_nonneg: "0 \<le> realized_vol s"
  by (simp add: realized_vol_def std1_nonneg vals_def)

lemma pearson_diag:
  "pearson (map (\<lambda>(t, x). (x, x)) r) = (if ssd (vals r) = 0 then None else Some 1)"
proof -
  have v: "map fst (map (\<lambda>(t, x). (x, x)) r) = vals r" "map snd (map (\<lambda>(t, x). (x, x)) r) = vals r"
    by (simp_all add: vals_def case_prod_beta o_def)
  have "0 < ssd (vals r) \<Longrightarrow> spd (vals r) (vals r) / (sqrt (ssd (vals r)) * sqrt (ssd (vals r))) = 1"
    by (simp add: spd_self)
  with ssd_nonneg [of "vals r"] show ?thesis
    unfolding pearson_def Let_def v by auto
qed

lemma corr_same_not_less:
  assumes "distinct (map fst r)" and "m \<le> 1" and "m \<le> 0 \<or> 30 \<le> length r"
  shows "\<not> nan_less (corr r r) m"
proof (cases "length r < 30")
  case True
  with assms(3) show ?thesis by (simp add: corr_def nan_less_def)
next
  case False
  have "map snd (align r r) = map (\<lambda>(t, x). (x, x)) r"
    by (simp add: align_same [OF assms(1)] case_prod_beta o_def)
  then have "corr r r = (if ssd (vals r) = 0 then None else Some 1)"
    using False by (simp add: corr_def pearson_diag)
  with assms(2) show ?thesis by (simp add: nan_less_def)
qed

lemma regime_ok_same:
  assumes "distinct (map fst la)" and "min_corr cfg \<le> 1" and "1 \<le> max_vol_ratio cfg"
    and "min_corr cfg \<le> 0 \<or> 30 \<le> length (tail 400 (log_returns la))"
  shows "regime_ok cfg la la"
proof -
  let ?r = "tail 400 (log_returns la)"
  have c: "\<not> nan_less (corr ?r ?r) (min_corr cfg)"
    by (rule corr_same_not_less) (simp_all add: distinct_returns assms)
  have v: "0 \<le> realized_vol ?r" by (rule realized_vol_nonneg)
  have a: "realized_vol ?r / max (1 / 10 ^ 9) (realized_vol ?r) \<le> 1"
    by (simp add: divide_le_eq_1 max_def)
  have "realized_vol ?r / max (1 / 10 ^ 9) (realized_vol ?r) \<le> max_vol_ratio cfg"
    using a assms(3) by (rule order_trans)
  with c v show ?thesis
    by (simp add: regime_ok_def Let_def)
qed

subsection \<open>The spike history\<close>

lemma log_prices_spike: "log_prices spike_close = spike_log"
  by (simp add: log_prices_def spike_close_def spike_log_def filter_map o_def)

lemma spike_log_length: "length spike_log = 121"
  by (simp add: spike_log_def)

lemma spike_log_vals: "vals spike_log = replicate 120 0 @ [1]"
  by (simp add: spike_log_def vals_def o_def map_replicate_const)

lemma spike_log_distinct: "distinct (map fst spike_log)"
  by (auto simp: spike_log_def o_def distinct_map inj_on_def)

lemma spike_log_tail: "tail 720 spike_log = spike_log" "tail 400 spike_log = spike_log"
  by (simp_all add: tail_def spike_log_length)

lemma spike_log_ssd: "ssd (vals spike_log) = 120 / 121"
  by (simp add: spike_log_vals ssd_spike)

lemma spike_beta: "ols_beta spike_log spike_log = Inr (121 / 120)"
proof -
  have "ols_beta spike_log spike_log
        = Inr (real (length spike_log) / (real (length spike_log) - 1) * ols_slope spike_log spike_log)"
    by (rule ols_beta_factor) (simp_all add: spike_log_length spike_log_ssd)
  moreover have "ols_slope spike_log spike_log = 1"
    by (rule ols_slope_self) (simp_all add: spike_log_length spike_log_ssd)
  ultimately show ?thesis by (simp add: spike_log_length)
qed

lemma spike_spread:
  "spread_of spike_log spike_log (121 / 120) = map (\<lambda>i. (int i, 0)) [0..<120] @ [(120, - (1 / 120))]"
  by (simp add: spread_same [OF spike_log_distinct]) (simp add: spike_log_def)

lemma zscore_spike:
  assumes "vals s = replicate n 0 @ [c]" and "49 \<le> n" and "c \<noteq> 0"
  shows "zscore s = (c - c / (real n + 1)) / sqrt (c\<^sup>2 / (real n + 1))"
proof -
  have l: "length s = n + 1"
    using arg_cong [OF assms(1), of length] by (simp add: vals_def)
  have sd: "std1 (vals s) = sqrt (c\<^sup>2 / (real n + 1))"
    using assms(2) by (simp add: std1_def assms(1) ssd_spike)
  have "0 < c\<^sup>2 / (real n + 1)" using assms(3) by simp
  then have nz: "sqrt (c\<^sup>2 / (real n + 1)) \<noteq> 0" using assms(3) by simp
  show ?thesis
    using assms(2) nz by (simp add: zscore_def l Let_def sd) (simp add: assms(1) mean_spike)
qed

lemma spike_z: "zscore (tail 400 (spread_of spike_log spike_log (121 / 120))) = - (120 / 11)"
proof -
  let ?sp = "map (\<lambda>i. (int i, 0::real)) [0..<120] @ [(120, - (1 / 120))]"
  have t: "tail 400 ?sp = ?sp" by (simp add: tail_def)
  have v: "vals ?sp = replicate 120 0 @ [- (1 / 120)]"
    by (simp add: vals_def o_def map_replicate_const)
  have "(- (1 / 120))\<^sup>2 / (real 120 + 1) = ((1 / 1320)::real)\<^sup>2"
    by (simp add: power2_eq_square)
  then have r: "sqrt ((- (1 / 120))\<^sup>2 / (real 120 + 1)) = 1 / 1320"
    by (simp only: real_sqrt_abs)
  have "zscore ?sp = (- (1 / 120) - (- (1 / 120)) / (real 120 + 1)) / sqrt ((- (1 / 120))\<^sup>2 / (real 120 + 1))"
    by (rule zscore_spike [OF v]) simp_all
  also have "\<dots> = - (120 / 11)" unfolding r by simp
  finally show ?thesis by (simp add: spike_spread t)
qed

lemma spike_regime: "regime_ok default_config spike_log spike_log"
  by (rule regime_ok_same)
    (simp_all add: spike_log_distinct default_config_def tail_def log_returns_def spike_log_length)


section \<open>Theorems: top-pair selection\<close>

lemma disjoint_snoc:
  "disjoint_pairs ps \<Longrightarrow> x \<notin> set (legs ps) \<Longrightarrow> y \<notin> set (legs ps)
   \<Longrightarrow> disjoint_pairs (ps @ [(x, y)])"
  unfolding disjoint_pairs_def legs_def
  apply (auto simp: nth_append less_Suc_eq)
     apply (metis nth_mem prod.collapse)+
  done

lemma pick_loop_disjoint:
  "disjoint_pairs picked \<Longrightarrow> set (legs picked) \<subseteq> used
   \<Longrightarrow> disjoint_pairs (pick_loop scored k picked used)"
proof (induction scored k picked used rule: pick_loop.induct)
  case (1 k picked used)
  then show ?case by simp
next
  case (2 p scored k picked used)
  show ?case
  proof (cases "ps_a p \<in> used \<or> ps_b p \<in> used")
    case True
    with 2 show ?thesis by simp
  next
    case False
    have d: "disjoint_pairs (picked @ [(ps_a p, ps_b p)])"
      using False 2(3,4) by (intro disjoint_snoc) auto
    have s: "set (legs (picked @ [(ps_a p, ps_b p)])) \<subseteq> insert (ps_b p) (insert (ps_a p) used)"
      using 2(4) by (auto simp: legs_def)
    show ?thesis using False d s 2(2) by (auto simp: Let_def)
  qed
qed

lemma pick_top_pairs_disjoint: "disjoint_pairs (pick_top_pairs scored k)"
  unfolding pick_top_pairs_def
  by (rule pick_loop_disjoint) (simp_all add: disjoint_pairs_def legs_def)

lemma pick_loop_length:
  "1 \<le> k \<Longrightarrow> int (length picked) < k \<Longrightarrow> int (length (pick_loop scored k picked used)) \<le> k"
  by (induction scored k picked used rule: pick_loop.induct) (auto simp: Let_def)

text \<open>For a limit of at least one the result has at most \<open>k\<close> pairs.\<close>

lemma pick_top_pairs_length: "1 \<le> k \<Longrightarrow> int (length (pick_top_pairs scored k)) \<le> k"
  unfolding pick_top_pairs_def by (rule pick_loop_length) auto

text \<open>
  Claim C5. \<open>pick_top_pairs\<close> is claimed to return at most \<open>k\<close> pairs for every ranked list
  and every limit \<open>k\<close>. With the limit 0 and a one-pair list it returns that pair: the
  length is compared with \<open>k\<close> only after the pair has been appended.
\<close>

theorem pick_top_pairs_limit_zero:
  "pick_top_pairs [\<lparr>ps_a = ''BTC/USD'', ps_b = ''ETH/USD'', score = 1, corr_lr = 1,
                     spread_vol = 1, ps_beta = 1\<rparr>] 0 = [(''BTC/USD'', ''ETH/USD'')]"
  by (simp add: pick_top_pairs_def)

section \<open>Theorems: risk manager\<close>





section \<open>Theorems: portfolio controller\<close>

subsection \<open>Two-leg entry\<close>

lemma call_ext_frame:
  "call_ext f c s = (r, s') \<Longrightarrow> same_ctl s s' \<and> calls s' = calls s @ [c r] \<and> f (world s) = (r, world s')"
  by (auto simp: call_ext_def same_ctl_def split: prod.splits)

lemma do_sleep_simps [simp]:
  "positions (do_sleep ops d s) = positions s"
  "cooldown_until_ts (do_sleep ops d s) = cooldown_until_ts s"
  "halted (do_sleep ops d s) = halted s"
  "consecutive_errors (do_sleep ops d s) = consecutive_errors s"
  "calls (do_sleep ops d s) = calls s @ [Sleep d]"
  "world (do_sleep ops d s) = sleep ops d (world s)"
  by (simp_all add: do_sleep_def)

lemma enter_attempts_protocol:
  "enter_attempts ops n a b sa sb va vb ta tb s = (r, s') \<Longrightarrow>
     same_ctl s s' \<and> (\<exists>cs. calls s' = calls s @ cs \<and>
        protocol (OpenPosition a sa va) (OpenPosition b sb vb) n ta tb cs r)"
proof (induction n arbitrary: ta tb s)
  case 0
  then show ?case by (auto simp: same_ctl_def intro: protocol.intros)
next
  case (Suc n)
  from Suc.prems show ?case
    by (auto split: prod.splits sum.splits if_splits dest!: call_ext_frame Suc.IH
        simp: same_ctl_def intro: protocol.intros)
qed


lemma protocol_tickets:
  "protocol oa ob n ta0 tb0 cs r \<Longrightarrow> r = Inr (ta, tb) \<Longrightarrow>
     ((ta = ta0 \<or> ta = 0) \<and> tb = tb0) \<or>
     (\<exists>front ra rb. cs = front @ [oa (Inr ra), ob (Inr rb)] \<and> ok ra \<and> ok rb
         \<and> ta = res_order ra \<and> tb = res_order rb)"
proof (induction arbitrary: rule: protocol.induct)
  case (a_refused ra n ta0 tb0 cs r)
  then show ?case by (auto simp: append_eq_Cons_conv) (metis append_Cons)+
next
  case (rolled_back ra rb n tb0 cs r ta0 rc)
  then show ?case by (auto simp: append_eq_Cons_conv) (metis append_Cons)+
qed auto

lemma protocol_count:
  "protocol (OpenPosition a sa va) (OpenPosition b sb vb) n ta0 tb0 cs r \<Longrightarrow> sa \<noteq> sb \<Longrightarrow>
     length (filter (is_open_of a sa) cs) \<le> n"
  by (induction rule: protocol.induct) (auto simp: is_open_of_def)

lemma protocol_compensation:
  "protocol (OpenPosition a sa va) (OpenPosition b sb vb) n ta0 tb0 cs r \<Longrightarrow> sa \<noteq> sb \<Longrightarrow>
     cs = pre @ OpenPosition b sb vb' (Inr rb) # post \<Longrightarrow> \<not> ok rb \<Longrightarrow>
     \<exists>pre' ra rc post'. pre = pre' @ [OpenPosition a sa va (Inr ra)] \<and> ok ra
        \<and> post = ClosePosition (res_order ra) rc # post'"
proof (induction arbitrary: pre post rule: protocol.induct)
  case (a_refused ra n ta tb cs r)
  then show ?case 
    apply (auto simp: Cons_eq_append_conv)
    by (metis append_Cons)
next
  case (rolled_back ra rb' n tb cs r ta rc)
  then show ?case
    apply (auto simp: Cons_eq_append_conv)
    by (metis append_Cons)
qed (auto simp: Cons_eq_append_conv)

lemma protocol_converse:
  "protocol (OpenPosition a sa va) (OpenPosition b sb vb) n ta0 tb0 cs r \<Longrightarrow> sa \<noteq> sb \<Longrightarrow>
     cs = front @ [OpenPosition a sa va' (Inr ra), OpenPosition b sb vb' (Inr rb)] \<Longrightarrow> ok rb \<Longrightarrow>
     r = Inr (res_order ra, res_order rb)"
proof (induction arbitrary: front rule: protocol.induct)
  case (a_refused ra' n ta tb cs r)
  then show ?case by (auto simp: Cons_eq_append_conv)
next
  case (rolled_back ra' rb' n tb cs r ta rc)
  then show ?case by (auto simp: Cons_eq_append_conv)
qed (auto simp: Cons_eq_append_conv)


lemma set_update_subset: "set (AList.update k v al) \<subseteq> insert (k, v) (set al)"
  by (induction al) auto

lemma set_delete_subset: "set (AList.delete k al) \<subseteq> set al"
  by (induction al) auto

lemma no_zero_ticket_update:
  "no_zero_ticket tbl \<Longrightarrow> ticket_a p \<noteq> 0 \<Longrightarrow> ticket_b p \<noteq> 0 \<Longrightarrow> no_zero_ticket (AList.update k p tbl)"
  unfolding no_zero_ticket_def using set_update_subset [of k p tbl] by fastforce

lemma no_zero_ticket_delete: "no_zero_ticket tbl \<Longrightarrow> no_zero_ticket (AList.delete k tbl)"
  unfolding no_zero_ticket_def using set_delete_subset [of k tbl] by fastforce

lemma leg_sides_distinct: "fst (leg_sides action) \<noteq> snd (leg_sides action)"
  by (simp add: leg_sides_def)


lemma live_enter_cases:
  assumes le: "live_enter ops a b action pa pb s = (r, s')"
  obtains
    (sizing) "r \<noteq> Inr ()" and "positions s' = positions s"
      and "filter is_open_call (new_calls s s') = []"
  | (attempted) va vb cs ra where
      "new_calls s s' = CalcVolume a pa (pa * (95 / 100)) # CalcVolume b pb (pb * (95 / 100)) # cs"
      and "protocol (OpenPosition a (fst (leg_sides action)) va)
             (OpenPosition b (snd (leg_sides action)) vb) 3 0 0 cs ra"
      and "case ra of Inl e \<Rightarrow> r = Inl e \<and> positions s' = positions s
           | Inr (ta, tb) \<Rightarrow> r = Inr () \<and>
               (if ta \<noteq> 0 \<and> tb \<noteq> 0
                then positions s' = AList.update (a, b)
                       (new_position a b action va vb pa pb (clock ops (world s')) ta tb) (positions s)
                else positions s' = positions s)"
proof -
  obtain r1 s1 where c1: "call_ext (calc_volume_for_risk ops a pa (pa * (95 / 100)))
      (\<lambda>r. CalcVolume a pa (pa * (95 / 100))) s = (r1, s1)" by force
  note f1 = call_ext_frame [OF c1]
  show thesis
  proof (cases r1)
    case (Inl e)
    with le c1 f1 have "r \<noteq> Inr ()" "positions s' = positions s"
      "filter is_open_call (new_calls s s') = []"
      by (auto simp: live_enter_def new_calls_def same_ctl_def is_open_call_def)
    then show thesis by (rule sizing)
  next
    case va: (Inr va)
    obtain r2 s2 where c2: "call_ext (calc_volume_for_risk ops b pb (pb * (95 / 100)))
      (\<lambda>r. CalcVolume b pb (pb * (95 / 100))) s1 = (r2, s2)" by force
    note f2 = call_ext_frame [OF c2]
    show thesis
    proof (cases r2)
      case (Inl e)
      with le c1 c2 f1 f2 va have "r \<noteq> Inr ()" "positions s' = positions s"
        "filter is_open_call (new_calls s s') = []"
        by (auto simp: live_enter_def new_calls_def same_ctl_def is_open_call_def)
      then show thesis by (rule sizing)
    next
      case vb: (Inr vb)
      obtain ra s3 where c3: "enter_attempts ops 3 a b (fst (leg_sides action))
          (snd (leg_sides action)) va vb 0 0 s2 = (ra, s3)" by force
      from enter_attempts_protocol [OF c3] obtain cs where
        f3: "same_ctl s2 s3" "calls s3 = calls s2 @ cs"
        and pr: "protocol (OpenPosition a (fst (leg_sides action)) va)
             (OpenPosition b (snd (leg_sides action)) vb) 3 0 0 cs ra" by blast
      have nc: "new_calls s s' = CalcVolume a pa (pa * (95 / 100)) # CalcVolume b pb (pb * (95 / 100)) # cs"
        using le c1 c2 c3 f1 f2 f3 va vb
        by (auto simp: live_enter_def new_calls_def split: sum.splits if_splits)
      have eff: "case ra of Inl e \<Rightarrow> r = Inl e \<and> positions s' = positions s
           | Inr (ta, tb) \<Rightarrow> r = Inr () \<and>
               (if ta \<noteq> 0 \<and> tb \<noteq> 0
                then positions s' = AList.update (a, b)
                       (new_position a b action va vb pa pb (clock ops (world s')) ta tb) (positions s)
                else positions s' = positions s)"
        using le c1 c2 c3 f1 f2 f3 va vb
        by (auto simp: live_enter_def same_ctl_def split: sum.splits if_splits)
      from nc pr eff show thesis by (rule attempted)
    qed
  qed
qed


lemma new_position_simps [simp]:
  "ticket_a (new_position a b action va vb pa pb ts ta tb) = ta"
  "ticket_b (new_position a b action va vb pa pb ts ta tb) = tb"
  "side_a (new_position a b action va vb pa pb ts ta tb) = fst (leg_sides action)"
  "side_b (new_position a b action va vb pa pb ts ta tb) = snd (leg_sides action)"
  "vol_a (new_position a b action va vb pa pb ts ta tb) = va"
  "vol_b (new_position a b action va vb pa pb ts ta tb) = vb"
  "entry_ts (new_position a b action va vb pa pb ts ta tb) = ts"
  by (simp_all add: new_position_def)

lemma is_open_of_open: "is_open_of x sd c \<Longrightarrow> is_open_call c"
  by (auto simp: is_open_of_def is_open_call_def split: call.splits)

lemma filter_open_of_le: "length (filter (is_open_of x sd) cs) \<le> length (filter is_open_call cs)"
  by (induction cs) (auto dest: is_open_of_open)

subsection \<open>What each operation leaves unchanged\<close>



lemma live_enter_table:
  assumes "live_enter ops a b action pa pb s = (r, s')"
  shows "positions s' = positions s \<or>
     (\<exists>p. positions s' = AList.update (a, b) p (positions s) \<and> ticket_a p \<noteq> 0 \<and> ticket_b p \<noteq> 0)"
  using assms
proof (cases rule: live_enter_cases)
  case sizing
  then show ?thesis by simp
next
  case (attempted va vb cs ra)
  then show ?thesis by (auto split: sum.splits if_splits)
qed

lemma live_enter_other:
  assumes "live_enter ops a b action pa pb s = (r, s')" and "k \<noteq> (a, b)"
  shows "map_of (positions s') k = map_of (positions s) k"
  using live_enter_table [OF assms(1)] assms(2) by (auto simp: update_conv')

lemma live_enter_no_zero:
  assumes "live_enter ops a b action pa pb s = (r, s')" and "no_zero_ticket (positions s)"
  shows "no_zero_ticket (positions s')"
  using live_enter_table [OF assms(1)] assms(2) by (auto simp: no_zero_ticket_update)

lemma live_exit_frame:
  "live_exit ops key s = (r, s') \<Longrightarrow>
     halted s' = halted s \<and> consecutive_errors s' = consecutive_errors s
     \<and> (positions s' = positions s \<or> positions s' = AList.delete key (positions s))
     \<and> filter is_open_call (calls s') = filter is_open_call (calls s)
     \<and> (cooldown_until_ts s' = cooldown_until_ts s \<or> cooldown_until_ts s' = clock ops (world s') + 30 * 60)"
  by (auto simp: live_exit_def Let_def is_open_call_def split: prod.splits sum.splits if_splits option.splits
      dest!: call_ext_frame simp: same_ctl_def)

lemma can_trade_frame:
  "can_trade ops ce s = (r, s') \<Longrightarrow>
     positions s' = positions s \<and> cooldown_until_ts s' = cooldown_until_ts s
     \<and> consecutive_errors s' = consecutive_errors s \<and> (halted s \<longrightarrow> halted s')
     \<and> filter is_open_call (calls s') = filter is_open_call (calls s)
     \<and> filter is_close_call (calls s') = filter is_close_call (calls s)"
  by (auto simp: can_trade_def is_open_call_def is_close_call_def split: if_splits prod.splits sum.splits
      dest!: call_ext_frame simp: same_ctl_def)

lemma can_trade_halted: "halted s \<Longrightarrow> can_trade ops ce s = (Inr False, s)"
  by (simp add: can_trade_def)

lemma can_trade_cooldown:
  "clock ops (world s) < cooldown_until_ts s \<Longrightarrow> can_trade ops True s = (Inr False, s)"
  by (simp add: can_trade_def)


lemma compute_signal_frame:
  "compute_signal ops cfg a b s = (r, s') \<Longrightarrow> same_ctl s s'
     \<and> filter is_open_call (calls s') = filter is_open_call (calls s)
     \<and> filter is_close_call (calls s') = filter is_close_call (calls s)"
  by (auto simp: compute_signal_def is_open_call_def is_close_call_def split: prod.splits sum.splits
      dest!: call_ext_frame simp: same_ctl_def)










subsection \<open>Too little history\<close>

lemma signal_from_skip:
  "length (tail (lookback cfg) (log_prices ca)) < 120 \<or> length (tail (lookback cfg) (log_prices cb)) < 120
   \<Longrightarrow> signal_from cfg ca cb pos now = Inr (''SKIP'', 0, 1, ''not enough data'')"
  by (auto simp: signal_from_def Let_def)

lemma act_on_skip: "act_on ops a b ''SKIP'' pa pb s = (Inr (), s)"
  by (simp add: act_on_def is_enter_def)

lemma starvedD:
  "starved ops cfg x \<Longrightarrow> fetch_close ops x (timeframe cfg) (lookback cfg) w = (Inr c, w')
   \<Longrightarrow> length (tail (lookback cfg) (log_prices c)) < 120"
  unfolding starved_def by (drule spec [of _ w]) simp

lemma compute_signal_starved:
  assumes "starved ops cfg a \<or> starved ops cfg b"
    and "compute_signal ops cfg a b s = (Inr sg, s')"
  shows "sg = (''SKIP'', 0, 1, ''not enough data'')"
  using assms
  by (auto simp: compute_signal_def split: prod.splits sum.splits
      dest!: call_ext_frame dest: starvedD simp: signal_from_skip)

lemma pair_body_starved:
  assumes "starved ops cfg a \<or> starved ops cfg b"
    and "pair_body ops cfg (a, b) s = (r, s')"
  shows "same_ctl s s' \<and> filter is_open_call (calls s') = filter is_open_call (calls s)
     \<and> filter is_close_call (calls s') = filter is_close_call (calls s)"
proof -
  obtain r1 s1 where c: "compute_signal ops cfg a b s = (r1, s1)" by force
  note f = compute_signal_frame [OF c]
  show ?thesis
  proof (cases r1)
    case (Inl e)
    with assms(2) c f show ?thesis by (simp add: pair_body_def)
  next
    case (Inr sg)
    with compute_signal_starved [OF assms(1)] c have sg: "sg = (''SKIP'', 0, 1, ''not enough data'')" by simp
    from assms(2) c Inr sg f show ?thesis
      by (auto simp: pair_body_def act_on_skip same_ctl_def is_open_call_def is_close_call_def
          split: prod.splits sum.splits dest!: call_ext_frame)
  qed
qed


subsection \<open>The position table across iterations and cycles\<close>

lemma live_exit_table:
  "live_exit ops key s = (r, s') \<Longrightarrow>
     positions s' = positions s \<or> positions s' = AList.delete key (positions s)"
  by (simp add: live_exit_frame)

lemma act_on_table:
  assumes "act_on ops a b action pa pb s = (r, s')"
  shows "(\<forall>k. k \<noteq> (a, b) \<longrightarrow> map_of (positions s') k = map_of (positions s) k)
     \<and> (no_zero_ticket (positions s) \<longrightarrow> no_zero_ticket (positions s'))"
proof -
  consider (ex) "live_exit ops (a, b) s = (r, s')"
    | (en) s1 where "can_trade ops True s = (Inr True, s1)" "live_enter ops a b action pa pb s1 = (r, s')"
    | (no) "positions s' = positions s"
    using assms
    by (auto simp: act_on_def split: if_splits prod.splits sum.splits dest!: can_trade_frame)
  then show ?thesis
  proof cases
    case ex
    from live_exit_table [OF ex] show ?thesis by (auto simp: no_zero_ticket_delete)
  next
    case en
    from can_trade_frame [OF en(1)] have "positions s1 = positions s" by simp
    with live_enter_other [OF en(2)] live_enter_no_zero [OF en(2)] show ?thesis by simp
  next
    case no
    then show ?thesis by simp
  qed
qed

lemma pair_body_table:
  assumes "pair_body ops cfg key s = (r, s')"
  shows "(\<forall>k. k \<noteq> key \<longrightarrow> map_of (positions s') k = map_of (positions s) k)
     \<and> (no_zero_ticket (positions s) \<longrightarrow> no_zero_ticket (positions s'))"
proof -
  consider (act) action pa pb s3 where "positions s3 = positions s"
        "act_on ops (fst key) (snd key) action pa pb s3 = (r, s')"
    | (no) "positions s' = positions s"
    using assms
    by (auto simp: pair_body_def same_ctl_def split: prod.splits sum.splits
        dest!: compute_signal_frame call_ext_frame)
  then show ?thesis
  proof cases
    case act
    with act_on_table [OF act(2)] show ?thesis by simp
  next
    case no
    then show ?thesis by simp
  qed
qed

lemma pair_iter_positions:
  "\<exists>r s1. pair_body ops cfg key s = (r, s1) \<and> positions (pair_iter ops cfg key s) = positions s1"
  by (cases "pair_body ops cfg key s") (auto simp: pair_iter_def Let_def split: sum.splits)

lemma pair_iter_table:
  "(\<forall>k. k \<noteq> key \<longrightarrow> map_of (positions (pair_iter ops cfg key s)) k = map_of (positions s) k)
     \<and> (no_zero_ticket (positions s) \<longrightarrow> no_zero_ticket (positions (pair_iter ops cfg key s)))"
  using pair_iter_positions [of ops cfg key s] pair_body_table by metis

lemma for_pairs_no_zero:
  "no_zero_ticket (positions s) \<Longrightarrow> no_zero_ticket (positions (for_pairs ops cfg keys s))"
  by (induction keys arbitrary: s) (auto simp: pair_iter_table)

lemma step_no_zero:
  "no_zero_ticket (positions s) \<Longrightarrow> no_zero_ticket (positions (snd (step ops cfg pairs s)))"
  by (auto simp: step_def split: prod.splits sum.splits dest!: can_trade_frame intro!: for_pairs_no_zero)

lemma cycles_no_zero:
  "no_zero_ticket (positions s) \<Longrightarrow> no_zero_ticket (positions (snd (cycles ops cfg pairs n s)))"
proof (induction n arbitrary: s)
  case 0
  then show ?case by simp
next
  case (Suc n)
  obtain r s1 where st: "step ops cfg pairs s = (r, s1)" by force
  with step_no_zero [OF Suc.prems, of ops cfg pairs] have z: "no_zero_ticket (positions s1)" by simp
  show ?case
  proof (cases r)
    case (Inl e)
    with st z show ?thesis by simp
  next
    case (Inr u)
    have "no_zero_ticket (positions (do_sleep ops (real_of_int (poll_seconds cfg)) s1))" using z by simp
    from Suc.IH [OF this] st Inr show ?thesis by simp
  qed
qed

lemma pair_iter_starved:
  assumes "starved ops cfg a \<or> starved ops cfg b"
  shows "positions (pair_iter ops cfg (a, b) s) = positions s
     \<and> filter is_open_call (calls (pair_iter ops cfg (a, b) s)) = filter is_open_call (calls s)
     \<and> filter is_close_call (calls (pair_iter ops cfg (a, b) s)) = filter is_close_call (calls s)"
proof -
  obtain r s1 where b: "pair_body ops cfg (a, b) s = (r, s1)" by force
  from pair_body_starved [OF assms b] b show ?thesis
    by (auto simp: pair_iter_def Let_def same_ctl_def is_open_call_def is_close_call_def split: sum.splits)
qed

lemma for_pairs_starved:
  assumes "starved ops cfg a \<or> starved ops cfg b"
  shows "map_of (positions (for_pairs ops cfg keys s)) (a, b) = map_of (positions s) (a, b)"
proof (induction keys arbitrary: s)
  case Nil
  then show ?case by simp
next
  case (Cons key keys)
  have "map_of (positions (pair_iter ops cfg key s)) (a, b) = map_of (positions s) (a, b)"
  proof (cases "key = (a, b)")
    case True
    with pair_iter_starved [OF assms, of s] show ?thesis by simp
  next
    case False
    with pair_iter_table [of key ops cfg s] show ?thesis by simp
  qed
  with Cons.IH [of "pair_iter ops cfg key s"] show ?case by simp
qed

lemma step_starved:
  assumes "starved ops cfg a \<or> starved ops cfg b"
  shows "map_of (positions (snd (step ops cfg pairs s))) (a, b) = map_of (positions s) (a, b)"
  by (auto simp: step_def for_pairs_starved [OF assms] split: prod.splits sum.splits dest!: can_trade_frame)

lemma cycles_starved:
  assumes "starved ops cfg a \<or> starved ops cfg b"
  shows "map_of (positions (snd (cycles ops cfg pairs n s))) (a, b) = map_of (positions s) (a, b)"
proof (induction n arbitrary: s)
  case 0
  then show ?case by simp
next
  case (Suc n)
  obtain r s1 where st: "step ops cfg pairs s = (r, s1)" by force
  with step_starved [OF assms, of pairs s] have z: "map_of (positions s1) (a, b) = map_of (positions s) (a, b)" by simp
  show ?case
  proof (cases r)
    case (Inl e)
    with st z show ?thesis by simp
  next
    case (Inr u)
    from Suc.IH [of "do_sleep ops (real_of_int (poll_seconds cfg)) s1"] st Inr z show ?thesis by simp
  qed
qed


subsection \<open>Cooldown\<close>

lemma act_on_enter_blocked:
  "is_enter action \<Longrightarrow> clock ops (world s) < cooldown_until_ts s
     \<Longrightarrow> act_on ops a b action pa pb s = (Inr (), s)"
  by (auto simp: act_on_def can_trade_cooldown is_enter_def)

lemma pair_body_before_act:
  "pair_body ops cfg key s =
     (case before_act ops cfg key s of
        (Inl e, s3) \<Rightarrow> (Inl e, s3)
      | (Inr (action, pa, pb), s3) \<Rightarrow> act_on ops (fst key) (snd key) action pa pb s3)"
  by (simp add: pair_body_def before_act_def split: prod.splits sum.splits)

lemma before_act_frame:
  "before_act ops cfg key s = (r, s3) \<Longrightarrow>
     same_ctl s s3 \<and> filter is_open_call (calls s3) = filter is_open_call (calls s)"
  by (auto simp: before_act_def same_ctl_def is_open_call_def split: prod.splits sum.splits
      dest!: compute_signal_frame call_ext_frame)

lemma act_on_blocked:
  assumes "is_enter action \<and> map_of (positions s) (a, b) = None \<and> \<not> halted s
           \<longrightarrow> clock ops (world s) < cooldown_until_ts s"
    and "act_on ops a b action pa pb s = (r, s')"
  shows "filter is_open_call (calls s') = filter is_open_call (calls s)"
proof -
  consider (ex) "live_exit ops (a, b) s = (r, s')" | (no) "s' = s"
    using assms
    by (cases "halted s") (auto simp: act_on_def can_trade_cooldown can_trade_halted split: if_splits)
  then show ?thesis
  proof cases
    case ex
    from live_exit_frame [OF ex] show ?thesis by simp
  next
    case no
    then show ?thesis by simp
  qed
qed

lemma pair_iter_blocked:
  assumes "entry_check_inside ops cfg key s"
  shows "filter is_open_call (calls (pair_iter ops cfg key s)) = filter is_open_call (calls s)"
proof -
  obtain r0 s3 where b: "before_act ops cfg key s = (r0, s3)" by force
  note f = before_act_frame [OF b]
  obtain r s1 where p: "pair_body ops cfg key s = (r, s1)" by force
  have "filter is_open_call (calls s1) = filter is_open_call (calls s)"
  proof (cases r0)
    case (Inl e)
    with p b f show ?thesis by (simp add: pair_body_before_act)
  next
    case (Inr t)
    obtain action pa pb where t: "t = (action, pa, pb)" by (cases t)
    from p b Inr t have a: "act_on ops (fst key) (snd key) action pa pb s3 = (r, s1)"
      by (simp add: pair_body_before_act)
    from assms b Inr t have
      "is_enter action \<and> map_of (positions s3) (fst key, snd key) = None \<and> \<not> halted s3
           \<longrightarrow> clock ops (world s3) < cooldown_until_ts s3"
      by (simp add: entry_check_inside_def)
    from act_on_blocked [OF this a] f show ?thesis by simp
  qed
  with p show ?thesis
    by (auto simp: pair_iter_def Let_def is_open_call_def split: sum.splits)
qed

lemma for_pairs_blocked:
  "entry_checks_inside ops cfg keys s \<Longrightarrow>
     filter is_open_call (calls (for_pairs ops cfg keys s)) = filter is_open_call (calls s)"
proof (induction keys arbitrary: s)
  case Nil
  then show ?case by simp
next
  case (Cons key keys)
  from Cons.prems have a: "entry_check_inside ops cfg key s"
    and b: "entry_checks_inside ops cfg keys (pair_iter ops cfg key s)" by simp_all
  from pair_iter_blocked [OF a] Cons.IH [OF b] show ?case by simp
qed

lemma step_blocked:
  assumes "cycle_in_cooldown ops cfg pairs s"
  shows "filter is_open_call (calls (snd (step ops cfg pairs s))) = filter is_open_call (calls s)"
proof -
  obtain r s1 where c: "can_trade ops False s = (r, s1)" by force
  from can_trade_frame [OF c] have f: "filter is_open_call (calls s1) = filter is_open_call (calls s)"
    by simp
  show ?thesis
  proof (cases r)
    case (Inl e)
    with c f show ?thesis by (simp add: step_def)
  next
    case (Inr allowed)
    show ?thesis
    proof (cases allowed)
      case False
      with c f Inr show ?thesis by (simp add: step_def)
    next
      case True
      with assms c Inr have "entry_checks_inside ops cfg
              (if max_open_positions cfg \<le> int (length (positions s1))
               then map fst (positions s1) else pairs) s1"
        by (simp add: cycle_in_cooldown_def)
      from for_pairs_blocked [OF this] c f Inr True show ?thesis by (simp add: step_def)
    qed
  qed
qed

lemma step_runs_loop:
  assumes "\<not> halted s" and "rm_is_trading_allowed ops (world s) = (Inr (True, why), w1)"
  shows "step ops cfg pairs s =
     (Inr (), for_pairs ops cfg
        (if max_open_positions cfg \<le> int (length (positions s)) then map fst (positions s) else pairs)
        (s\<lparr>world := w1, calls := calls s @ [RiskCheck]\<rparr>))"
  using assms by (simp add: step_def can_trade_def call_ext_def)

lemma for_pairs_append:
  "for_pairs ops cfg (pre @ post) s = for_pairs ops cfg post (for_pairs ops cfg pre s)"
  by (induction pre arbitrary: s) simp_all

lemma compute_signal_calls:
  "compute_signal ops cfg a b s = (Inr sg, s1) \<Longrightarrow>
     same_ctl s s1 \<and> calls s1 = calls s @ [FetchClose a, FetchClose b]"
  by (auto simp: compute_signal_def same_ctl_def split: prod.splits sum.splits dest!: call_ext_frame)

lemma pair_iter_exit:
  assumes q: "map_of (positions s) (a, b) = Some q"
    and c: "compute_signal ops cfg a b s = (Inr (''EXIT'', z, beta, why), s1)"
    and l: "fetch_last ops a (world s1) = (Inr pa, w2)" "fetch_last ops b w2 = (Inr pb, w3)"
    and x: "close_position_by_ticket ops (ticket_a q) w3 = (Inr rc, w4)"
       "close_position_by_ticket ops (ticket_b q) w4 = (Inr rd, w5)"
  shows "map_of (positions (pair_iter ops cfg (a, b) s)) (a, b) = None
     \<and> calls (pair_iter ops cfg (a, b) s)
         = calls s @ [FetchClose a, FetchClose b, FetchLast a, FetchLast b,
                      ClosePosition (ticket_a q) (Inr rc), ClosePosition (ticket_b q) (Inr rd)]
     \<and> cooldown_until_ts (pair_iter ops cfg (a, b) s)
         = (if pnl_of rc + pnl_of rd < 0 then clock ops w5 + 30 * 60 else cooldown_until_ts s)"
proof -
  from compute_signal_calls [OF c] have f: "positions s1 = positions s"
    "cooldown_until_ts s1 = cooldown_until_ts s" "calls s1 = calls s @ [FetchClose a, FetchClose b]"
    by (simp_all add: same_ctl_def)
  show ?thesis
    using q l x f
    by (simp add: pair_iter_def pair_body_def c call_ext_def act_on_def live_exit_def Let_def
        delete_conv')
qed

lemma live_exit_loss:
  assumes "map_of (positions s) key = Some p"
    and "close_position_by_ticket ops (ticket_a p) (world s) = (Inr ra, w1)"
    and "close_position_by_ticket ops (ticket_b p) w1 = (Inr rb, w2)"
  shows "fst (live_exit ops key s) = Inr ()
     \<and> new_calls s (snd (live_exit ops key s))
         = [ClosePosition (ticket_a p) (Inr ra), ClosePosition (ticket_b p) (Inr rb)]
     \<and> map_of (positions (snd (live_exit ops key s))) key = None
     \<and> cooldown_until_ts (snd (live_exit ops key s))
         = (if pnl_of ra + pnl_of rb < 0 then clock ops w2 + 30 * 60 else cooldown_until_ts s)"
  using assms by (simp add: live_exit_def call_ext_def Let_def new_calls_def delete_conv')

lemma act_on_exit:
  "map_of (positions s) (a, b) = Some p \<Longrightarrow> act_on ops a b ''EXIT'' pa pb s = live_exit ops (a, b) s"
  by (simp add: act_on_def)

lemma live_exit_calls:
  assumes "map_of (positions s) key = Some p" and "live_exit ops key s = (r, s')"
  shows "\<exists>ra cs. new_calls s s' = ClosePosition (ticket_a p) ra # cs"
  using assms
  by (auto simp: live_exit_def call_ext_def Let_def new_calls_def split: prod.splits sum.splits)


subsection \<open>A signal computed from fetched histories\<close>

lemma compute_signal_fetched:
  assumes "fetch_close ops a (timeframe cfg) (lookback cfg) (world s) = (Inr ca, w1)"
    and "fetch_close ops b (timeframe cfg) (lookback cfg) w1 = (Inr cb, w2)"
  shows "compute_signal ops cfg a b s =
     (signal_from cfg ca cb (map_of (positions s) (a, b)) (clock ops w2),
      s\<lparr>world := w2, calls := calls s @ [FetchClose a, FetchClose b]\<rparr>)"
  using assms by (simp add: compute_signal_def call_ext_def)

lemma pair_iter_short:
  assumes f: "fetch_close ops a (timeframe cfg) (lookback cfg) (world s) = (Inr ca, w1)"
      "fetch_close ops b (timeframe cfg) (lookback cfg) w1 = (Inr cb, w2)"
    and sh: "length (tail (lookback cfg) (log_prices ca)) < 120
           \<or> length (tail (lookback cfg) (log_prices cb)) < 120"
  shows "positions (pair_iter ops cfg (a, b) s) = positions s
     \<and> filter is_close_call (calls (pair_iter ops cfg (a, b) s)) = filter is_close_call (calls s)"
proof -
  obtain r s1 where b: "pair_body ops cfg (a, b) s = (r, s1)" by force
  have "positions s1 = positions s \<and> filter is_close_call (calls s1) = filter is_close_call (calls s)"
    using b
    by (auto simp: pair_body_def compute_signal_fetched [OF f] signal_from_skip [OF sh] act_on_skip
        same_ctl_def is_close_call_def split: prod.splits sum.splits dest!: call_ext_frame)
  with b show ?thesis
    by (auto simp: pair_iter_def Let_def is_close_call_def split: sum.splits)
qed


lemma spike_signal:
  "signal_from default_config spike_close spike_close None now
     = Inr (''ENTER_LONGA_SHORTB'', - (120 / 11), 121 / 120, ''z low'')"
proof -
  have c: "lookback default_config = 720" "beta_window default_config = 720"
    "z_entry default_config = 23 / 10"
    by (simp_all add: default_config_def)
  show ?thesis
    by (simp add: signal_from_def log_prices_spike c spike_log_tail spike_log_length Let_def
        spike_regime spike_beta spike_z)
qed

section \<open>Theorems: the claims about the controller\<close>

text \<open>
  Claim C6. The two-leg entry is atomic with respect to the position table. For every
  run of \<open>_live_enter\<close>, with any broker: the table is left as it was, or the pair's
  record is written with the nonzero order tickets of the two legs, and then the run's
  last two calls are the opens of leg A and leg B, both accepted; conversely a run that
  ends with both opens accepted with nonzero tickets has written the record; whenever
  the broker refuses leg B, the call before it is the accepted open of leg A and the
  call after it closes leg A by its ticket; leg A is opened at most three times; the
  run puts no zero ticket into the table, and no table reached by polling from the
  initial state holds one.
\<close>

theorem live_enter_two_leg_atomic:
  assumes le: "live_enter ops a b action pa pb s = (r, s')"
  shows "(positions s' = positions s \<or>
          (\<exists>va vb front ra rb.
              positions s' = AList.update (a, b)
                 (new_position a b action va vb pa pb (clock ops (world s')) (res_order ra) (res_order rb))
                 (positions s)
              \<and> new_calls s s' = front @ [OpenPosition a (fst (leg_sides action)) va (Inr ra),
                                           OpenPosition b (snd (leg_sides action)) vb (Inr rb)]
              \<and> ok ra \<and> ok rb \<and> res_order ra \<noteq> 0 \<and> res_order rb \<noteq> 0))
     \<and> (\<forall>front va vb ra rb.
            new_calls s s' = front @ [OpenPosition a (fst (leg_sides action)) va (Inr ra),
                                      OpenPosition b (snd (leg_sides action)) vb (Inr rb)]
            \<and> ok ra \<and> ok rb \<and> res_order ra \<noteq> 0 \<and> res_order rb \<noteq> 0
            \<longrightarrow> (\<exists>p. map_of (positions s') (a, b) = Some p
                     \<and> ticket_a p = res_order ra \<and> ticket_b p = res_order rb))
     \<and> (\<forall>pre post vb rb.
            new_calls s s' = pre @ OpenPosition b (snd (leg_sides action)) vb (Inr rb) # post \<and> \<not> ok rb
            \<longrightarrow> (\<exists>pre' va ra rc post'.
                     pre = pre' @ [OpenPosition a (fst (leg_sides action)) va (Inr ra)] \<and> ok ra
                     \<and> post = ClosePosition (res_order ra) rc # post'))
     \<and> length (filter (is_open_of a (fst (leg_sides action))) (new_calls s s')) \<le> 3
     \<and> (no_zero_ticket (positions s) \<longrightarrow> no_zero_ticket (positions s'))
     \<and> no_zero_ticket (positions (snd (cycles ops cfg pairs n (init_bot w))))"
proof -
  have g: "no_zero_ticket (positions (snd (cycles ops cfg pairs n (init_bot w))))"
    by (rule cycles_no_zero) (simp add: init_bot_def no_zero_ticket_def)
  from le show ?thesis
  proof (cases rule: live_enter_cases)
    case sizing
    have n1: "new_calls s s' \<noteq> pre @ OpenPosition x sd v rp # post" for pre x sd v rp post
    proof
      assume "new_calls s s' = pre @ OpenPosition x sd v rp # post"
      then have "filter is_open_call (new_calls s s') \<noteq> []"
        by (simp add: is_open_call_def)
      with sizing(3) show False by simp
    qed
    have n2: "new_calls s s' \<noteq> front @ [c, OpenPosition x sd v rp]" for front c x sd v rp
      using n1 [of "front @ [c]" x sd v rp "[]"] by simp
    have n3: "length (filter (is_open_of a (fst (leg_sides action))) (new_calls s s')) \<le> 3"
      using filter_open_of_le [of a "fst (leg_sides action)" "new_calls s s'"] sizing(3) by simp
    from sizing(2) n1 n2 n3 g show ?thesis by simp
  next
    case (attempted va vb cs ra)
    note d = leg_sides_distinct [of action]
    have c1: "positions s' = positions s \<or>
            (\<exists>va vb front ra rb.
                positions s' = AList.update (a, b)
                   (new_position a b action va vb pa pb (clock ops (world s')) (res_order ra) (res_order rb))
                   (positions s)
                \<and> new_calls s s' = front @ [OpenPosition a (fst (leg_sides action)) va (Inr ra),
                                             OpenPosition b (snd (leg_sides action)) vb (Inr rb)]
                \<and> ok ra \<and> ok rb \<and> res_order ra \<noteq> 0 \<and> res_order rb \<noteq> 0)"
    proof (cases ra)
      case (Inl e)
      with attempted(3) show ?thesis by simp
    next
      case (Inr tt)
      obtain ta tb where tt: "tt = (ta, tb)" by (cases tt)
      show ?thesis
      proof (cases "ta \<noteq> 0 \<and> tb \<noteq> 0")
        case False
        with attempted(3) Inr tt show ?thesis by auto
      next
        case True
        from protocol_tickets [OF attempted(2), of ta tb] Inr tt True
        obtain front ra' rb' where
          "cs = front @ [OpenPosition a (fst (leg_sides action)) va (Inr ra'),
                         OpenPosition b (snd (leg_sides action)) vb (Inr rb')]"
          "ok ra'" "ok rb'" "ta = res_order ra'" "tb = res_order rb'" by auto
        with attempted(1,3) Inr tt True show ?thesis
          apply (intro disjI2)
          apply (rule exI [of _ va], rule exI [of _ vb])
          apply (rule exI [of _ "CalcVolume a pa (pa * (95 / 100)) # CalcVolume b pb (pb * (95 / 100)) # front"])
          apply (rule exI [of _ ra'], rule exI [of _ rb'])
          by simp
      qed
    qed
    have c2: "\<exists>p. map_of (positions s') (a, b) = Some p
                       \<and> ticket_a p = res_order ra' \<and> ticket_b p = res_order rb'"
      if "new_calls s s' = front @ [OpenPosition a (fst (leg_sides action)) va' (Inr ra'),
                                        OpenPosition b (snd (leg_sides action)) vb' (Inr rb')]"
         "ok rb'" "res_order ra' \<noteq> 0" "res_order rb' \<noteq> 0" for front va' vb' ra' rb'
    proof -
      from that(1) attempted(1) obtain front' where
        "cs = front' @ [OpenPosition a (fst (leg_sides action)) va' (Inr ra'),
                                        OpenPosition b (snd (leg_sides action)) vb' (Inr rb')]"
        by (auto simp: Cons_eq_append_conv)
      from protocol_converse [OF attempted(2) d this that(2)]
      have "ra = Inr (res_order ra', res_order rb')" .
      with attempted(3) that(3,4) show ?thesis by (simp add: update_conv')
    qed
    have c3: "\<exists>pre' va ra rc post'.
                       pre = pre' @ [OpenPosition a (fst (leg_sides action)) va (Inr ra)] \<and> ok ra
                       \<and> post = ClosePosition (res_order ra) rc # post'"
      if "new_calls s s' = pre @ OpenPosition b (snd (leg_sides action)) vb' (Inr rb') # post" "\<not> ok rb'"
      for pre post vb' rb'
    proof -
      from that(1) attempted(1) obtain pre2 where
        p: "pre = CalcVolume a pa (pa * (95 / 100)) # CalcVolume b pb (pb * (95 / 100)) # pre2"
           "cs = pre2 @ OpenPosition b (snd (leg_sides action)) vb' (Inr rb') # post"
        by (auto simp: Cons_eq_append_conv)
      from protocol_compensation [OF attempted(2) d p(2) that(2)] p(1)
      show ?thesis by auto
    qed
    have c4: "length (filter (is_open_of a (fst (leg_sides action))) (new_calls s s')) \<le> 3"
      using protocol_count [OF attempted(2) d] attempted(1) by (simp add: is_open_of_def)
    have c5: "no_zero_ticket (positions s')" if "no_zero_ticket (positions s)"
      using c1 that by (auto simp: no_zero_ticket_update)
    from c1 c2 c3 c4 c5 g show ?thesis by blast
  qed
qed


lemmas sim_eval = live_enter_def call_ext_def sim_ops_def do_sleep_def leg_sides_def init_bot_def
  sim_start_def new_position_def numeral_3_eq_3 new_calls_def

theorem live_enter_two_leg_atomic_witness:
  "(\<exists>s'. live_enter (sim_ops (\<lambda>x. Inr [])) ''A'' ''B'' ''ENTER_LONGB_SHORTA'' 100 100
          (sim_start [OpenRes True 101, OpenRes False 0, OpenRes True 102, OpenRes False 0,
                      OpenRes True 103, OpenRes False 0] []) = (Inr (), s')
      \<and> positions s' = []
      \<and> filter is_close_call (calls s') =
          [ClosePosition 101 (Inr (CloseRes False None)), ClosePosition 102 (Inr (CloseRes False None)),
           ClosePosition 103 (Inr (CloseRes False None))]
      \<and> length (filter (is_open_of ''A'' ''SELL'') (calls s')) \<le> 3)
   \<and> (\<exists>s' p. live_enter (sim_ops (\<lambda>x. Inr [])) ''A'' ''B'' ''ENTER_LONGB_SHORTA'' 100 100
          (sim_start [OpenRes True 101, OpenRes True 202] []) = (Inr (), s')
      \<and> map_of (positions s') (''A'', ''B'') = Some p \<and> ticket_a p = 101 \<and> ticket_b p = 202)"
proof -
  let ?ops = "sim_ops (\<lambda>x. Inr [])"
  let ?s1 = "sim_start [OpenRes True 101, OpenRes False 0, OpenRes True 102, OpenRes False 0,
                      OpenRes True 103, OpenRes False 0] []"
  let ?s2 = "sim_start [OpenRes True 101, OpenRes True 202] []"
  obtain r1 t1 where e1: "live_enter ?ops ''A'' ''B'' ''ENTER_LONGB_SHORTA'' 100 100 ?s1 = (r1, t1)"
    by force
  have v1: "r1 = Inr ()" "positions t1 = []"
    "calls t1 = [CalcVolume ''A'' 100 95, CalcVolume ''B'' 100 95,
           OpenPosition ''A'' ''SELL'' 1 (Inr (OpenRes True 101)),
           OpenPosition ''B'' ''BUY'' 1 (Inr (OpenRes False 0)),
           ClosePosition 101 (Inr (CloseRes False None)), Sleep 1,
           OpenPosition ''A'' ''SELL'' 1 (Inr (OpenRes True 102)),
           OpenPosition ''B'' ''BUY'' 1 (Inr (OpenRes False 0)),
           ClosePosition 102 (Inr (CloseRes False None)), Sleep 1,
           OpenPosition ''A'' ''SELL'' 1 (Inr (OpenRes True 103)),
           OpenPosition ''B'' ''BUY'' 1 (Inr (OpenRes False 0)),
           ClosePosition 103 (Inr (CloseRes False None)), Sleep 1]"
    using e1 by (auto simp: sim_eval)
  have n1: "new_calls ?s1 t1 = calls t1" by (simp add: new_calls_def sim_start_def init_bot_def)
  from live_enter_two_leg_atomic [OF e1] n1
  have k1: "length (filter (is_open_of ''A'' ''SELL'') (calls t1)) \<le> 3"
    by (simp add: leg_sides_def)
  obtain r2 t2 where e2: "live_enter ?ops ''A'' ''B'' ''ENTER_LONGB_SHORTA'' 100 100 ?s2 = (r2, t2)"
    by force
  have v2: "r2 = Inr ()"
    "calls t2 = [CalcVolume ''A'' 100 95, CalcVolume ''B'' 100 95] @
           [OpenPosition ''A'' ''SELL'' 1 (Inr (OpenRes True 101)),
            OpenPosition ''B'' ''BUY'' 1 (Inr (OpenRes True 202))]"
    using e2 by (auto simp: sim_eval)
  have n2: "new_calls ?s2 t2 = calls t2" by (simp add: new_calls_def sim_start_def init_bot_def)
  from live_enter_two_leg_atomic [OF e2] have
    "\<forall>front va vb ra rb.
            new_calls ?s2 t2 = front @ [OpenPosition ''A'' (fst (leg_sides ''ENTER_LONGB_SHORTA'')) va (Inr ra),
                                      OpenPosition ''B'' (snd (leg_sides ''ENTER_LONGB_SHORTA'')) vb (Inr rb)]
            \<and> ok ra \<and> ok rb \<and> res_order ra \<noteq> 0 \<and> res_order rb \<noteq> 0
            \<longrightarrow> (\<exists>p. map_of (positions t2) (''A'', ''B'') = Some p
                     \<and> ticket_a p = res_order ra \<and> ticket_b p = res_order rb)"
    by blast
  from this [rule_format, of "[CalcVolume ''A'' 100 95, CalcVolume ''B'' 100 95]" 1 "OpenRes True 101" 1 "OpenRes True 202"]
    n2 v2(2)
  have k2: "\<exists>p. map_of (positions t2) (''A'', ''B'') = Some p \<and> ticket_a p = 101 \<and> ticket_b p = 202"
    by (simp add: leg_sides_def)
  from e1 v1 k1 e2 v2 k2 show ?thesis by (simp add: is_close_call_def)
qed




text \<open>
  Claim C10. When either leg's cleaned log-price series has fewer than 120 points the
  signal is SKIP, also for a pair with a position however long it has been held, and the
  iteration for the pair leaves the position table unchanged and closes nothing. While
  the feed stays that short for one of the legs, the pair's position survives every
  cycle.
\<close>

theorem insufficient_history_keeps_position:
  "(length (tail (lookback cfg) (log_prices ca)) < 120
      \<or> length (tail (lookback cfg) (log_prices cb)) < 120 \<longrightarrow>
       signal_from cfg ca cb (Some p) now = Inr (''SKIP'', 0, 1, ''not enough data'')
       \<and> (fetch_close ops a (timeframe cfg) (lookback cfg) (world s) = (Inr ca, w1)
          \<and> fetch_close ops b (timeframe cfg) (lookback cfg) w1 = (Inr cb, w2) \<longrightarrow>
            fst (compute_signal ops cfg a b s) = Inr (''SKIP'', 0, 1, ''not enough data'')
            \<and> positions (pair_iter ops cfg (a, b) s) = positions s
            \<and> filter is_close_call (calls (pair_iter ops cfg (a, b) s))
                = filter is_close_call (calls s)))
   \<and> (starved ops cfg a \<or> starved ops cfg b \<longrightarrow>
        positions (pair_iter ops cfg (a, b) s) = positions s
        \<and> filter is_close_call (calls (pair_iter ops cfg (a, b) s)) = filter is_close_call (calls s)
        \<and> map_of (positions (snd (step ops cfg pairs s))) (a, b) = map_of (positions s) (a, b)
        \<and> map_of (positions (snd (cycles ops cfg pairs n s))) (a, b) = map_of (positions s) (a, b))"
proof -
  have c1: "signal_from cfg ca cb (Some p) now = Inr (''SKIP'', 0, 1, ''not enough data'')"
    if "length (tail (lookback cfg) (log_prices ca)) < 120
      \<or> length (tail (lookback cfg) (log_prices cb)) < 120"
    using that by (rule signal_from_skip)
  have c2: "fst (compute_signal ops cfg a b s) = Inr (''SKIP'', 0, 1, ''not enough data'')
            \<and> positions (pair_iter ops cfg (a, b) s) = positions s
            \<and> filter is_close_call (calls (pair_iter ops cfg (a, b) s))
                = filter is_close_call (calls s)"
    if sh: "length (tail (lookback cfg) (log_prices ca)) < 120
      \<or> length (tail (lookback cfg) (log_prices cb)) < 120"
      and f: "fetch_close ops a (timeframe cfg) (lookback cfg) (world s) = (Inr ca, w1)"
         "fetch_close ops b (timeframe cfg) (lookback cfg) w1 = (Inr cb, w2)"
    using pair_iter_short [OF f sh] by (simp add: compute_signal_fetched [OF f] signal_from_skip [OF sh])
  have c3: "positions (pair_iter ops cfg (a, b) s) = positions s
        \<and> filter is_close_call (calls (pair_iter ops cfg (a, b) s)) = filter is_close_call (calls s)
        \<and> map_of (positions (snd (step ops cfg pairs s))) (a, b) = map_of (positions s) (a, b)
        \<and> map_of (positions (snd (cycles ops cfg pairs n s))) (a, b) = map_of (positions s) (a, b)"
    if st: "starved ops cfg a \<or> starved ops cfg b"
    using pair_iter_starved [OF st, of s] step_starved [OF st, of pairs s] cycles_starved [OF st, of pairs n s]
    by simp
  from c1 c2 c3 show ?thesis by blast
qed

theorem insufficient_history_keeps_position_witness:
  "starved (sim_ops (\<lambda>x. Inr [])) default_config ''A''
   \<and> real_of_int (max_hold_minutes default_config) < (1000000 - 0) / 60
   \<and> map_of (positions (snd (cycles (sim_ops (\<lambda>x. Inr [])) default_config [(''A'', ''B'')] 3
        ((sim_start [] [])\<lparr>positions := [((''A'', ''B''),
             new_position ''A'' ''B'' ''ENTER_LONGB_SHORTA'' 1 1 100 100 0 101 202)],
           world := \<lparr>sim_time = 1000000, sim_opens = [], sim_closes = [], sim_allowed = True\<rparr>\<rparr>))))
       (''A'', ''B'')
     = Some (new_position ''A'' ''B'' ''ENTER_LONGB_SHORTA'' 1 1 100 100 0 101 202)"
proof -
  have st: "starved (sim_ops (\<lambda>x. Inr [])) default_config ''A''"
    by (simp add: starved_def sim_ops_def log_prices_def tail_def default_config_def)
  from insufficient_history_keeps_position [where cfg = default_config
      and ops = "sim_ops (\<lambda>x. Inr [])" and a = "''A''" and b = "''B''"
      and pairs = "[(''A'', ''B'')]" and n = 3] st
  show ?thesis by (simp add: default_config_def)
qed

section \<open>Theorems: concrete runs\<close>

lemma sim_ops_sel:
  "clock (sim_ops f) = sim_time"
  "sleep (sim_ops f) = (\<lambda>d w. w\<lparr>sim_time := sim_time w + d\<rparr>)"
  "fetch_close (sim_ops f) = (\<lambda>sym tf n w. (f sym, w))"
  "fetch_last (sim_ops f) = (\<lambda>sym w. (Inr 100, w))"
  "rm_is_trading_allowed (sim_ops f) =
     (\<lambda>w. (Inr (if sim_allowed w then (True, OK) else (False, DAILY_LIMIT 0)), w))"
  "calc_volume_for_risk (sim_ops f) = (\<lambda>sym entry sl w. (Inr 1, w))"
  "open_position (sim_ops f) = (\<lambda>sym sd v w. case sim_opens w of
                         [] \<Rightarrow> (Inr (OpenRes False 0), w)
                       | r # rs \<Rightarrow> (Inr r, w\<lparr>sim_opens := rs\<rparr>))"
  "close_position_by_ticket (sim_ops f) = (\<lambda>t w. case sim_closes w of
                         [] \<Rightarrow> (Inr (CloseRes False None), w)
                       | r # rs \<Rightarrow> (Inr r, w\<lparr>sim_closes := rs\<rparr>))"
  by (simp_all add: sim_ops_def)

lemma compute_signal_spike:
  "map_of (positions s) (a, b) = None \<Longrightarrow>
   compute_signal (sim_ops (\<lambda>x. Inr spike_close)) default_config a b s
     = (Inr (''ENTER_LONGA_SHORTB'', - (120 / 11), 121 / 120, ''z low''),
        s\<lparr>calls := calls s @ [FetchClose a, FetchClose b]\<rparr>)"
  by (simp add: compute_signal_def call_ext_def sim_ops_sel spike_signal)

lemmas step_eval = step_def can_trade_def call_ext_def sim_ops_sel pair_iter_def pair_body_def
  compute_signal_spike act_on_def is_enter_def live_enter_def numeral_3_eq_3 leg_sides_def
  do_sleep_def sim_start_def init_bot_def new_position_def

text \<open>Neither action that \<open>_compute_signal\<close> produces is the string that \<open>_live_enter\<close>
  compares with, so the legs always go out as SELL and BUY.\<close>

lemma leg_sides_fixed: "action \<noteq> ''ENTER_A_LONG'' \<Longrightarrow> leg_sides action = (''SELL'', ''BUY'')"
  by (simp add: leg_sides_def)

lemma signal_from_actions:
  "signal_from cfg ca cb pos now = Inr (action, z, beta, why) \<Longrightarrow> action \<noteq> ''ENTER_A_LONG''"
  by (auto simp: signal_from_def Let_def split: if_splits sum.splits option.splits)

text \<open>
  Claim C1. An ENTER with the z-score below the negated entry threshold is claimed to
  open leg A as BUY and leg B as SELL. On the spike history for both instruments the
  z-score is -120/11, below -2.3, the action is ENTER_LONGA_SHORTB, and the cycle opens
  leg A as SELL and leg B as BUY and records the position with these sides.
\<close>

theorem long_a_signal_opens_leg_a_short:
  "fst (compute_signal (sim_ops (\<lambda>x. Inr spike_close)) default_config ''A'' ''B''
          (sim_start [OpenRes True 101, OpenRes True 202] []))
     = Inr (''ENTER_LONGA_SHORTB'', - (120 / 11), 121 / 120, ''z low'')
   \<and> - (120 / 11) < - z_entry default_config
   \<and> leg_sides ''ENTER_LONGA_SHORTB'' = (''SELL'', ''BUY'')
   \<and> filter is_open_call (calls (snd (step (sim_ops (\<lambda>x. Inr spike_close)) default_config
          [(''A'', ''B'')] (sim_start [OpenRes True 101, OpenRes True 202] []))))
     = [OpenPosition ''A'' ''SELL'' 1 (Inr (OpenRes True 101)),
        OpenPosition ''B'' ''BUY'' 1 (Inr (OpenRes True 202))]
   \<and> map (\<lambda>kp. (fst kp, side_a (snd kp), side_b (snd kp)))
        (positions (snd (step (sim_ops (\<lambda>x. Inr spike_close)) default_config
          [(''A'', ''B'')] (sim_start [OpenRes True 101, OpenRes True 202] []))))
     = [((''A'', ''B''), ''SELL'', ''BUY'')]"
  by (simp add: step_eval is_open_call_def) (simp add: default_config_def leg_sides_def)

text \<open>
  Claim C2. The position table is claimed to hold at most \<open>max_open_positions\<close> entries
  at every point of every cycle. Starting from the empty table with the limit 2, one
  cycle over three pairs that all signal an entry opens three positions: the limit is
  tested once, before the loop.
\<close>

theorem one_cycle_opens_three_positions:
  "positions (sim_start [OpenRes True 1, OpenRes True 2, OpenRes True 3, OpenRes True 4,
                         OpenRes True 5, OpenRes True 6] []) = []
   \<and> max_open_positions default_config = 2
   \<and> map fst (positions (snd (step (sim_ops (\<lambda>x. Inr spike_close)) default_config
        [(''A'', ''B''), (''C'', ''D''), (''E'', ''F'')]
        (sim_start [OpenRes True 1, OpenRes True 2, OpenRes True 3, OpenRes True 4,
                    OpenRes True 5, OpenRes True 6] []))))
     = [(''A'', ''B''), (''C'', ''D''), (''E'', ''F'')]"
  by (simp add: step_eval) (simp add: default_config_def)

text \<open>
  Claim C4. Identical price series are claimed to give the hedge ratio 1, a spread that
  is zero throughout, the z-score 0 and never an ENTER action. On the spike history for
  both instruments the hedge ratio is 121/120, the last spread value is -1/120, the
  z-score is -120/11 and the action is ENTER_LONGA_SHORTB.
\<close>

theorem identical_series_enter:
  "ols_beta (log_prices spike_close) (log_prices spike_close) = Inr (121 / 120)
   \<and> snd (last (spread_of (log_prices spike_close) (log_prices spike_close) (121 / 120))) = - (1 / 120)
   \<and> signal_from default_config spike_close spike_close None 0
       = Inr (''ENTER_LONGA_SHORTB'', - (120 / 11), 121 / 120, ''z low'')"
  by (simp add: log_prices_spike spike_beta spike_spread spike_signal)

subsection \<open>A position held past the time stop\<close>

lemma default_config_sel:
  "timeframe default_config = ''1m''" "lookback default_config = 720"
  "beta_window default_config = 720" "z_entry default_config = 23 / 10"
  "z_exit default_config = 1 / 2" "max_hold_minutes default_config = 240"
  "top_pairs default_config = 5" "max_open_positions default_config = 2"
  "min_corr default_config = 55 / 100" "max_vol_ratio default_config = 2"
  "poll_seconds default_config = 20"
  by (simp_all add: default_config_def)

lemma spike_signal_exit:
  "real_of_int (max_hold_minutes default_config) < (now - entry_ts p) / 60 \<Longrightarrow>
   signal_from default_config spike_close spike_close (Some p) now
     = Inr (''EXIT'', - (120 / 11), 121 / 120, ''max hold'')"
proof -
  assume h: "real_of_int (max_hold_minutes default_config) < (now - entry_ts p) / 60"
  have c: "lookback default_config = 720" "beta_window default_config = 720"
    by (simp_all add: default_config_def)
  show ?thesis
    using h
    by (simp add: signal_from_def log_prices_spike c spike_log_tail spike_log_length Let_def
        spike_beta spike_z)
qed

lemma compute_signal_spike_exit:
  "map_of (positions s) (a, b) = Some p \<Longrightarrow>
   real_of_int (max_hold_minutes default_config) < (sim_time (world s) - entry_ts p) / 60 \<Longrightarrow>
   compute_signal (sim_ops (\<lambda>x. Inr spike_close)) default_config a b s
     = (Inr (''EXIT'', - (120 / 11), 121 / 120, ''max hold''),
        s\<lparr>calls := calls s @ [FetchClose a, FetchClose b]\<rparr>)"
  by (simp add: compute_signal_def call_ext_def sim_ops_sel spike_signal_exit)


lemmas exit_eval = step_eval default_config_sel compute_signal_spike_exit live_exit_def pnl_of_def
  before_act_def entry_check_inside_def cycle_in_cooldown_def

text \<open>
  Claim C7. An exit whose realized total (a failed close counting as zero) is negative
  sets the cooldown to the clock plus thirty minutes. While the clock read at the entry
  check is before the end of the cooldown, an ENTER action changes nothing and calls no
  collaborator, and a cycle whose entry checks all fall inside the cooldown makes no
  open call. The cooldown does not reach the exits: a cycle that is not halted and
  passes the risk check runs its loop whatever the cooldown, and in it an iteration
  with an EXIT signal for a pair with a position calls both closes, removes the
  position and, on a loss, restarts the cooldown.
\<close>

theorem cooldown_blocks_entries_only:
  "(map_of (positions s) key = Some p
      \<and> close_position_by_ticket ops (ticket_a p) (world s) = (Inr ra, w1)
      \<and> close_position_by_ticket ops (ticket_b p) w1 = (Inr rb, w2)
      \<and> pnl_of ra + pnl_of rb < 0
      \<longrightarrow> cooldown_until_ts (snd (live_exit ops key s)) = clock ops w2 + 30 * 60)
   \<and> (is_enter action \<and> clock ops (world s) < cooldown_until_ts s
      \<longrightarrow> act_on ops a b action pa pb s = (Inr (), s))
   \<and> (cycle_in_cooldown ops cfg pairs s
      \<longrightarrow> filter is_open_call (calls (snd (step ops cfg pairs s))) = filter is_open_call (calls s))
   \<and> (map_of (positions s) (a, b) = Some q
      \<longrightarrow> act_on ops a b ''EXIT'' pa pb s = live_exit ops (a, b) s
          \<and> (\<exists>rc cs. new_calls s (snd (live_exit ops (a, b) s)) = ClosePosition (ticket_a q) rc # cs)
          \<and> (\<forall>rc rd v1 v2.
                close_position_by_ticket ops (ticket_a q) (world s) = (Inr rc, v1)
                \<and> close_position_by_ticket ops (ticket_b q) v1 = (Inr rd, v2)
                \<longrightarrow> new_calls s (snd (live_exit ops (a, b) s))
                      = [ClosePosition (ticket_a q) (Inr rc), ClosePosition (ticket_b q) (Inr rd)]
                    \<and> map_of (positions (snd (live_exit ops (a, b) s))) (a, b) = None))
   \<and> (\<not> halted s \<and> rm_is_trading_allowed ops (world s) = (Inr (True, why), w0)
      \<longrightarrow> step ops cfg pairs s =
            (Inr (), for_pairs ops cfg
               (if max_open_positions cfg \<le> int (length (positions s))
                then map fst (positions s) else pairs)
               (s\<lparr>world := w0, calls := calls s @ [RiskCheck]\<rparr>)))
   \<and> (\<not> halted s \<and> rm_is_trading_allowed ops (world s) = (Inr (True, why), w0)
       \<and> (if max_open_positions cfg \<le> int (length (positions s))
           then map fst (positions s) else pairs) = pre @ (a, b) # post
       \<and> sk = for_pairs ops cfg pre (s\<lparr>world := w0, calls := calls s @ [RiskCheck]\<rparr>)
       \<and> map_of (positions sk) (a, b) = Some qk
       \<and> compute_signal ops cfg a b sk = (Inr (''EXIT'', z, beta, why'), s1)
       \<and> fetch_last ops a (world s1) = (Inr la, w3) \<and> fetch_last ops b w3 = (Inr lb, w4)
       \<and> close_position_by_ticket ops (ticket_a qk) w4 = (Inr rc, w5)
       \<and> close_position_by_ticket ops (ticket_b qk) w5 = (Inr rd, w6)
      \<longrightarrow> step ops cfg pairs s = (Inr (), for_pairs ops cfg post (pair_iter ops cfg (a, b) sk))
          \<and> map_of (positions (pair_iter ops cfg (a, b) sk)) (a, b) = None
          \<and> calls (pair_iter ops cfg (a, b) sk)
              = calls sk @ [FetchClose a, FetchClose b, FetchLast a, FetchLast b,
                            ClosePosition (ticket_a qk) (Inr rc), ClosePosition (ticket_b qk) (Inr rd)]
          \<and> cooldown_until_ts (pair_iter ops cfg (a, b) sk)
              = (if pnl_of rc + pnl_of rd < 0 then clock ops w6 + 30 * 60
                 else cooldown_until_ts sk))"
  (is "?A \<and> ?B \<and> ?C \<and> ?D \<and> ?E \<and> ?F")
proof -
  have c1: "cooldown_until_ts (snd (live_exit ops key s)) = clock ops w2 + 30 * 60"
    if "map_of (positions s) key = Some p"
      "close_position_by_ticket ops (ticket_a p) (world s) = (Inr ra, w1)"
      "close_position_by_ticket ops (ticket_b p) w1 = (Inr rb, w2)"
      "pnl_of ra + pnl_of rb < 0"
    using live_exit_loss [OF that(1,2,3)] that(4) by simp
  have c2: "act_on ops a b action pa pb s = (Inr (), s)"
    if "is_enter action" "clock ops (world s) < cooldown_until_ts s"
    using that by (rule act_on_enter_blocked)
  have c3: "filter is_open_call (calls (snd (step ops cfg pairs s))) = filter is_open_call (calls s)"
    if "cycle_in_cooldown ops cfg pairs s"
    using that by (rule step_blocked)
  have c4: "act_on ops a b ''EXIT'' pa pb s = live_exit ops (a, b) s
          \<and> (\<exists>rc cs. new_calls s (snd (live_exit ops (a, b) s)) = ClosePosition (ticket_a q) rc # cs)
          \<and> (\<forall>rc rd v1 v2.
                close_position_by_ticket ops (ticket_a q) (world s) = (Inr rc, v1)
                \<and> close_position_by_ticket ops (ticket_b q) v1 = (Inr rd, v2)
                \<longrightarrow> new_calls s (snd (live_exit ops (a, b) s))
                      = [ClosePosition (ticket_a q) (Inr rc), ClosePosition (ticket_b q) (Inr rd)]
                    \<and> map_of (positions (snd (live_exit ops (a, b) s))) (a, b) = None)"
    if q: "map_of (positions s) (a, b) = Some q"
  proof -
    obtain r s' where e: "live_exit ops (a, b) s = (r, s')" by force
    from live_exit_calls [OF q e] e
    have "\<exists>rc cs. new_calls s (snd (live_exit ops (a, b) s)) = ClosePosition (ticket_a q) rc # cs"
      by simp
    with act_on_exit [OF q] live_exit_loss [OF q] show ?thesis by blast
  qed
  have c5: "step ops cfg pairs s =
            (Inr (), for_pairs ops cfg
               (if max_open_positions cfg \<le> int (length (positions s))
                then map fst (positions s) else pairs)
               (s\<lparr>world := w0, calls := calls s @ [RiskCheck]\<rparr>))"
    if "\<not> halted s" "rm_is_trading_allowed ops (world s) = (Inr (True, why), w0)"
    using that by (rule step_runs_loop)
  have c6: "step ops cfg pairs s = (Inr (), for_pairs ops cfg post (pair_iter ops cfg (a, b) sk))
          \<and> map_of (positions (pair_iter ops cfg (a, b) sk)) (a, b) = None
          \<and> calls (pair_iter ops cfg (a, b) sk)
              = calls sk @ [FetchClose a, FetchClose b, FetchLast a, FetchLast b,
                            ClosePosition (ticket_a qk) (Inr rc), ClosePosition (ticket_b qk) (Inr rd)]
          \<and> cooldown_until_ts (pair_iter ops cfg (a, b) sk)
              = (if pnl_of rc + pnl_of rd < 0 then clock ops w6 + 30 * 60
                 else cooldown_until_ts sk)"
    if h: "\<not> halted s" "rm_is_trading_allowed ops (world s) = (Inr (True, why), w0)"
      and l: "(if max_open_positions cfg \<le> int (length (positions s))
           then map fst (positions s) else pairs) = pre @ (a, b) # post"
      and k: "sk = for_pairs ops cfg pre (s\<lparr>world := w0, calls := calls s @ [RiskCheck]\<rparr>)"
      and e: "map_of (positions sk) (a, b) = Some qk"
        "compute_signal ops cfg a b sk = (Inr (''EXIT'', z, beta, why'), s1)"
        "fetch_last ops a (world s1) = (Inr la, w3)" "fetch_last ops b w3 = (Inr lb, w4)"
        "close_position_by_ticket ops (ticket_a qk) w4 = (Inr rc, w5)"
        "close_position_by_ticket ops (ticket_b qk) w5 = (Inr rd, w6)"
  proof -
    have "step ops cfg pairs s = (Inr (), for_pairs ops cfg post (pair_iter ops cfg (a, b) sk))"
      unfolding step_runs_loop [OF h] l k by (simp add: for_pairs_append)
    with pair_iter_exit [OF e] show ?thesis by simp
  qed
  have "?A" using c1 by blast
  moreover have "?B" using c2 by blast
  moreover have "?C" using c3 by blast
  moreover have "?D" using c4 by blast
  moreover have "?E" using c5 by blast
  moreover have "?F" by (intro impI, elim conjE, rule c6; assumption)
  ultimately show ?thesis by (intro conjI)
qed

theorem cooldown_blocks_entries_only_witness:
  "(20000::real) < 21000
   \<and> cycle_in_cooldown (sim_ops (\<lambda>x. Inr spike_close)) default_config
        [(''A'', ''B''), (''C'', ''D'')]
        \<lparr>positions = [((''A'', ''B''),
             new_position ''A'' ''B'' ''ENTER_LONGB_SHORTA'' 1 1 100 100 0 101 202)],
          cooldown_until_ts = 21000, halted = False, consecutive_errors = 0,
          world = \<lparr>sim_time = 20000, sim_opens = [OpenRes True 1, OpenRes True 2],
                    sim_closes = [CloseRes True (Some (- 20)), CloseRes True (Some (15 / 2))],
                    sim_allowed = True\<rparr>,
          calls = []\<rparr>
   \<and> filter is_open_call (calls (snd (step (sim_ops (\<lambda>x. Inr spike_close)) default_config
        [(''A'', ''B''), (''C'', ''D'')]
        \<lparr>positions = [((''A'', ''B''),
             new_position ''A'' ''B'' ''ENTER_LONGB_SHORTA'' 1 1 100 100 0 101 202)],
          cooldown_until_ts = 21000, halted = False, consecutive_errors = 0,
          world = \<lparr>sim_time = 20000, sim_opens = [OpenRes True 1, OpenRes True 2],
                    sim_closes = [CloseRes True (Some (- 20)), CloseRes True (Some (15 / 2))],
                    sim_allowed = True\<rparr>,
          calls = []\<rparr>))) = []
   \<and> calls (snd (step (sim_ops (\<lambda>x. Inr spike_close)) default_config
        [(''A'', ''B''), (''C'', ''D'')]
        \<lparr>positions = [((''A'', ''B''),
             new_position ''A'' ''B'' ''ENTER_LONGB_SHORTA'' 1 1 100 100 0 101 202)],
          cooldown_until_ts = 21000, halted = False, consecutive_errors = 0,
          world = \<lparr>sim_time = 20000, sim_opens = [OpenRes True 1, OpenRes True 2],
                    sim_closes = [CloseRes True (Some (- 20)), CloseRes True (Some (15 / 2))],
                    sim_allowed = True\<rparr>,
          calls = []\<rparr>))
       = [RiskCheck, FetchClose ''A'', FetchClose ''B'', FetchLast ''A'', FetchLast ''B'',
          ClosePosition 101 (Inr (CloseRes True (Some (- 20)))),
          ClosePosition 202 (Inr (CloseRes True (Some (15 / 2)))),
          FetchClose ''C'', FetchClose ''D'', FetchLast ''C'', FetchLast ''D'']
   \<and> positions (snd (step (sim_ops (\<lambda>x. Inr spike_close)) default_config
        [(''A'', ''B''), (''C'', ''D'')]
        \<lparr>positions = [((''A'', ''B''),
             new_position ''A'' ''B'' ''ENTER_LONGB_SHORTA'' 1 1 100 100 0 101 202)],
          cooldown_until_ts = 21000, halted = False, consecutive_errors = 0,
          world = \<lparr>sim_time = 20000, sim_opens = [OpenRes True 1, OpenRes True 2],
                    sim_closes = [CloseRes True (Some (- 20)), CloseRes True (Some (15 / 2))],
                    sim_allowed = True\<rparr>,
          calls = []\<rparr>)) = []
   \<and> cooldown_until_ts (snd (step (sim_ops (\<lambda>x. Inr spike_close)) default_config
        [(''A'', ''B''), (''C'', ''D'')]
        \<lparr>positions = [((''A'', ''B''),
             new_position ''A'' ''B'' ''ENTER_LONGB_SHORTA'' 1 1 100 100 0 101 202)],
          cooldown_until_ts = 21000, halted = False, consecutive_errors = 0,
          world = \<lparr>sim_time = 20000, sim_opens = [OpenRes True 1, OpenRes True 2],
                    sim_closes = [CloseRes True (Some (- 20)), CloseRes True (Some (15 / 2))],
                    sim_allowed = True\<rparr>,
          calls = []\<rparr>)) = 21800"
proof -
  let ?ops = "sim_ops (\<lambda>x. Inr spike_close)"
  let ?p = "new_position ''A'' ''B'' ''ENTER_LONGB_SHORTA'' 1 1 100 100 0 101 202"
  let ?w = "\<lparr>sim_time = 20000, sim_opens = [OpenRes True 1, OpenRes True 2],
                    sim_closes = [CloseRes True (Some (- 20)), CloseRes True (Some (15 / 2))],
                    sim_allowed = True\<rparr>"
  let ?s = "\<lparr>positions = [((''A'', ''B''), ?p)],
          cooldown_until_ts = 21000, halted = False, consecutive_errors = 0,
          world = ?w, calls = []\<rparr>"
  let ?ps = "[(''A'', ''B''), (''C'', ''D'')]"
  let ?sk = "?s\<lparr>world := ?w, calls := calls ?s @ [RiskCheck]\<rparr>"
  have h: "cycle_in_cooldown ?ops default_config ?ps ?s"
    by (simp add: exit_eval)
  from cooldown_blocks_entries_only [where ops = ?ops and cfg = default_config
      and pairs = ?ps and s = ?s] h
  have k1: "filter is_open_call (calls (snd (step ?ops default_config ?ps ?s))) = []"
    by simp
  have e: "compute_signal ?ops default_config ''A'' ''B'' ?sk
           = (Inr (''EXIT'', - (120 / 11), 121 / 120, ''max hold''),
              ?sk\<lparr>calls := calls ?sk @ [FetchClose ''A'', FetchClose ''B'']\<rparr>)"
    by (rule compute_signal_spike_exit [where p = ?p]) (simp_all add: default_config_sel)
  have "step ?ops default_config ?ps ?s
          = (Inr (), for_pairs ?ops default_config [(''C'', ''D'')]
                (pair_iter ?ops default_config (''A'', ''B'') ?sk))
        \<and> map_of (positions (pair_iter ?ops default_config (''A'', ''B'') ?sk)) (''A'', ''B'') = None
        \<and> calls (pair_iter ?ops default_config (''A'', ''B'') ?sk)
              = calls ?sk @ [FetchClose ''A'', FetchClose ''B'', FetchLast ''A'', FetchLast ''B'',
                            ClosePosition (ticket_a ?p) (Inr (CloseRes True (Some (- 20)))),
                            ClosePosition (ticket_b ?p) (Inr (CloseRes True (Some (15 / 2))))]
        \<and> cooldown_until_ts (pair_iter ?ops default_config (''A'', ''B'') ?sk)
              = (if pnl_of (CloseRes True (Some (- 20))) + pnl_of (CloseRes True (Some (15 / 2))) < 0
                 then clock ?ops (?w\<lparr>sim_closes := []\<rparr>) + 30 * 60
                 else cooldown_until_ts ?sk)"
    using cooldown_blocks_entries_only [where ops = ?ops and cfg = default_config
      and pairs = ?ps and s = ?s and why = OK and ?w0.0 = ?w and pre = "[]" and a = "''A''"
      and b = "''B''" and post = "[(''C'', ''D'')]" and sk = ?sk and qk = ?p
      and z = "- (120 / 11)" and beta = "121 / 120" and why' = "''max hold''"
      and ?s1.0 = "?sk\<lparr>calls := calls ?sk @ [FetchClose ''A'', FetchClose ''B'']\<rparr>"
      and la = 100 and ?w3.0 = ?w and lb = 100 and ?w4.0 = ?w
      and rc = "CloseRes True (Some (- 20))"
      and ?w5.0 = "?w\<lparr>sim_closes := [CloseRes True (Some (15 / 2))]\<rparr>"
      and rd = "CloseRes True (Some (15 / 2))" and ?w6.0 = "?w\<lparr>sim_closes := []\<rparr>"] e
    by (simp add: sim_ops_sel default_config_sel new_position_def)
  then have k2: "calls (snd (step ?ops default_config ?ps ?s))
       = [RiskCheck, FetchClose ''A'', FetchClose ''B'', FetchLast ''A'', FetchLast ''B'',
          ClosePosition 101 (Inr (CloseRes True (Some (- 20)))),
          ClosePosition 202 (Inr (CloseRes True (Some (15 / 2)))),
          FetchClose ''C'', FetchClose ''D'', FetchLast ''C'', FetchLast ''D'']"
    "positions (snd (step ?ops default_config ?ps ?s)) = []"
    "cooldown_until_ts (snd (step ?ops default_config ?ps ?s)) = 21800"
    by (simp_all add: exit_eval)
  from h k1 k2 show ?thesis by simp
qed

end
